theory Spec2Isabelle
  imports Main "HOL-Library.Word" "HOL-Library.Monad_Syntax"
begin

unbundle bit_operations_syntax

section \<open>Data model\<close>

text \<open>
  The archive encoder is the class \<open>CustomZipCreator\<close>. Its state is the private array
  \<open>entries\<close> of \<open>ZipEntry\<close> objects. A \<open>Uint8Array\<close> is a mutable object that is passed
  and stored by reference, so typed arrays live in an explicit store: a reference is an
  index into the store and allocation appends a cell. JavaScript strings are sequences
  of 16-bit code units; JavaScript numbers that hold lengths, offsets and counts are
  natural numbers, and the 16- and 32-bit truncation happens where \<open>DataView\<close> stores
  them.
\<close>

type_synonym byte = "8 word"
type_synonym bytes = "byte list"
type_synonym js_string = "16 word list"
type_synonym ref = nat
type_synonym heap = "bytes list"

datatype error = TypeError | RangeError | InvalidCharacterError

datatype js_value = JSString js_string | JSBytes ref | JSUndefined

record ZipEntry =
  filename :: js_string
  data :: ref
  crc32 :: nat

record CustomZipCreator =
  entries :: "ZipEntry list"

definition new_CustomZipCreator :: CustomZipCreator where
  "new_CustomZipCreator = \<lparr>entries = []\<rparr>"

definition alloc :: "bytes \<Rightarrow> heap \<Rightarrow> ref \<times> heap" where
  "alloc a h = (length h, h @ [a])"

text \<open>A string literal of the source whose characters are all ASCII.\<close>

definition ascii :: "string \<Rightarrow> js_string" where
  "ascii s = map of_char s"

section \<open>Checksum\<close>

text \<open>
  The bitwise operators of JavaScript work on the 32-bit pattern of their operands, so
  the register is a 32-bit word; \<open>>>>\<close> is the logical shift and the final \<open>>>> 0\<close> reads
  the pattern as an unsigned number. \<open>crcStep\<close> is the body of the inner loop of the
  table initialiser, run 8 times for each index.
\<close>

definition crcStep :: "32 word \<Rightarrow> 32 word" where
  "crcStep crc = (if crc AND 1 \<noteq> 0 then 0xedb88320 XOR drop_bit 1 crc else drop_bit 1 crc)"

definition crcTable :: "32 word list" where
  "crcTable = map (\<lambda>i. (crcStep ^^ 8) (of_nat i)) [0..<256]"

definition crcUpdate :: "32 word \<Rightarrow> byte \<Rightarrow> 32 word" where
  "crcUpdate crc byte = (crcTable ! unat ((crc XOR ucast byte) AND 0xff)) XOR drop_bit 8 crc"

definition calculateCRC32 :: "bytes \<Rightarrow> nat" where
  "calculateCRC32 bs = unat (foldl crcUpdate 0xffffffff bs XOR 0xffffffff)"

text \<open>
  The checksum as the contract of the specification states it, for comparison with the
  table-driven code: CRC-32/ISO-HDLC in reflected form, polynomial \<open>0xEDB88320\<close>,
  register preset to \<open>0xFFFFFFFF\<close>, one byte consumed per step, its bits processed least
  significant first, and a final XOR with \<open>0xFFFFFFFF\<close>.
\<close>

definition referenceShift :: "32 word \<Rightarrow> 32 word" where
  "referenceShift crc = (if bit crc 0 then drop_bit 1 crc XOR 0xEDB88320 else drop_bit 1 crc)"

definition crc32Reference :: "bytes \<Rightarrow> nat" where
  "crc32Reference bs =
     unat (NOT (foldl (\<lambda>crc b. (referenceShift ^^ 8) (crc XOR ucast b)) 0xFFFFFFFF bs))"

section \<open>Runtime functions used by the encoder\<close>

text \<open>
  \<open>TextEncoder.encode\<close> is a built-in of the runtime (WHATWG Encoding): the string is
  read as code points, a surrogate pair giving one code point and a lone surrogate
  U+FFFD, and each code point is written in UTF-8.
\<close>

definition isHighSurrogate :: "16 word \<Rightarrow> bool" where
  "isHighSurrogate u \<longleftrightarrow> 0xD800 \<le> u \<and> u \<le> 0xDBFF"

definition isLowSurrogate :: "16 word \<Rightarrow> bool" where
  "isLowSurrogate u \<longleftrightarrow> 0xDC00 \<le> u \<and> u \<le> 0xDFFF"

definition scalarValue :: "16 word \<Rightarrow> nat" where
  "scalarValue u = (if isHighSurrogate u \<or> isLowSurrogate u then 0xFFFD else unat u)"

fun codePoints :: "js_string \<Rightarrow> nat list" where
  "codePoints [] = []"
| "codePoints [u] = [scalarValue u]"
| "codePoints (u # v # s) =
     (if isHighSurrogate u \<and> isLowSurrogate v
      then (0x10000 + (unat u - 0xD800) * 0x400 + (unat v - 0xDC00)) # codePoints s
      else scalarValue u # codePoints (v # s))"

definition utf8 :: "nat \<Rightarrow> bytes" where
  "utf8 c =
     (if c < 0x80 then [of_nat c]
      else if c < 0x800 then [of_nat (0xC0 + c div 0x40), of_nat (0x80 + c mod 0x40)]
      else if c < 0x10000 then
        [of_nat (0xE0 + c div 0x1000), of_nat (0x80 + c div 0x40 mod 0x40),
         of_nat (0x80 + c mod 0x40)]
      else
        [of_nat (0xF0 + c div 0x40000), of_nat (0x80 + c div 0x1000 mod 0x40),
         of_nat (0x80 + c div 0x40 mod 0x40), of_nat (0x80 + c mod 0x40)])"

definition TextEncoder_encode :: "js_string \<Rightarrow> bytes" where
  "TextEncoder_encode s = concat (map utf8 (codePoints s))"

text \<open>
  \<open>atob\<close> is a built-in of the runtime (WHATWG Infra, forgiving-base64 decode): ASCII
  whitespace is removed; if the length is then a multiple of 4, one or two trailing
  \<open>=\<close> are removed; a length of 1 modulo 4 or any character outside the base64 alphabet
  is a failure, raised as \<open>InvalidCharacterError\<close>; otherwise every four characters give
  three bytes, and a rest of two or three characters gives one or two bytes. The result
  is a string with one code unit below 256 for each byte.
\<close>

definition isAsciiWhitespace :: "16 word \<Rightarrow> bool" where
  "isAsciiWhitespace c \<longleftrightarrow> c = 0x09 \<or> c = 0x0A \<or> c = 0x0C \<or> c = 0x0D \<or> c = 0x20"

definition base64Value :: "16 word \<Rightarrow> nat option" where
  "base64Value c =
     (if 0x41 \<le> c \<and> c \<le> 0x5A then Some (unat c - 0x41)
      else if 0x61 \<le> c \<and> c \<le> 0x7A then Some (unat c - 0x61 + 26)
      else if 0x30 \<le> c \<and> c \<le> 0x39 then Some (unat c - 0x30 + 52)
      else if c = 0x2B then Some 62
      else if c = 0x2F then Some 63
      else None)"

definition stripPadding :: "js_string \<Rightarrow> js_string" where
  "stripPadding d =
     (if length d mod 4 = 0 \<and> d \<noteq> [] \<and> last d = 0x3D
      then (if last (butlast d) = 0x3D then butlast (butlast d) else butlast d)
      else d)"

fun sextets :: "js_string \<Rightarrow> nat list option" where
  "sextets [] = Some []"
| "sextets (c # cs) =
     (case base64Value c of
        None \<Rightarrow> None
      | Some v \<Rightarrow> (case sextets cs of None \<Rightarrow> None | Some vs \<Rightarrow> Some (v # vs)))"

fun decodeSextets :: "nat list \<Rightarrow> nat list" where
  "decodeSextets (a # b # c # d # r) =
     [a * 4 + b div 16, (b mod 16) * 16 + c div 4, (c mod 4) * 64 + d] @ decodeSextets r"
| "decodeSextets [a, b, c] = [a * 4 + b div 16, (b mod 16) * 16 + c div 4]"
| "decodeSextets [a, b] = [a * 4 + b div 16]"
| "decodeSextets r = []"

definition atob :: "js_string \<Rightarrow> error + js_string" where
  "atob s =
     (let d = stripPadding (filter (\<lambda>c. \<not> isAsciiWhitespace c) s) in
      if length d mod 4 = 1 then Inl InvalidCharacterError
      else (case sextets d of
              None \<Rightarrow> Inl InvalidCharacterError
            | Some vs \<Rightarrow> Inr (map of_nat (decodeSextets vs))))"

text \<open>
  \<open>String.prototype.split\<close> with a separator of one code unit: the pieces between the
  occurrences of the separator, at least one piece. Reading an array past its end gives
  \<open>undefined\<close>.
\<close>

fun js_split :: "16 word \<Rightarrow> js_string \<Rightarrow> js_string list" where
  "js_split sep [] = [[]]"
| "js_split sep (c # cs) =
     (if c = sep then [] # js_split sep cs
      else (case js_split sep cs of
              [] \<Rightarrow> [[c]]
            | piece # pieces \<Rightarrow> (c # piece) # pieces))"

definition js_index :: "js_string list \<Rightarrow> nat \<Rightarrow> js_value" where
  "js_index xs i = (if i < length xs then JSString (xs ! i) else JSUndefined)"

text \<open>
  \<open>DataView.setUint16\<close> and \<open>setUint32\<close> with \<open>littleEndian = true\<close> reduce the value
  modulo \<open>2^16\<close> and \<open>2^32\<close> and store its bytes, the lowest first; \<open>TypedArray.set\<close>
  copies an array into another at an offset. All three raise \<open>RangeError\<close> when the
  write would pass the end of the target, which is \<open>None\<close> here.
\<close>

definition setUint16 :: "nat \<Rightarrow> nat \<Rightarrow> bytes \<Rightarrow> bytes option" where
  "setUint16 byteOffset v view =
     (if byteOffset + 2 \<le> length view
      then Some (view[byteOffset := of_nat v, byteOffset + 1 := of_nat (v div 2 ^ 8)])
      else None)"

definition setUint32 :: "nat \<Rightarrow> nat \<Rightarrow> bytes \<Rightarrow> bytes option" where
  "setUint32 byteOffset v view =
     (if byteOffset + 4 \<le> length view
      then Some (view[byteOffset := of_nat v, byteOffset + 1 := of_nat (v div 2 ^ 8),
                      byteOffset + 2 := of_nat (v div 2 ^ 16),
                      byteOffset + 3 := of_nat (v div 2 ^ 24)])
      else None)"

definition set_array :: "bytes \<Rightarrow> nat \<Rightarrow> bytes \<Rightarrow> bytes option" where
  "set_array source offset target =
     (if offset + length source \<le> length target
      then Some (take offset target @ source @ drop (offset + length source) target)
      else None)"

text \<open>Reading a little-endian field back, as a reader of the archive does.\<close>

definition getUint16 :: "nat \<Rightarrow> bytes \<Rightarrow> nat" where
  "getUint16 byteOffset view = unat (view ! byteOffset) + 2 ^ 8 * unat (view ! (byteOffset + 1))"

definition getUint32 :: "nat \<Rightarrow> bytes \<Rightarrow> nat" where
  "getUint32 byteOffset view =
     unat (view ! byteOffset) + 2 ^ 8 * unat (view ! (byteOffset + 1))
     + 2 ^ 16 * unat (view ! (byteOffset + 2)) + 2 ^ 24 * unat (view ! (byteOffset + 3))"

section \<open>Entry registration\<close>

definition base64ToUint8Array :: "js_string \<Rightarrow> error + bytes" where
  "base64ToUint8Array base64 =
     (case atob base64 of
        Inl e \<Rightarrow> Inl e
      | Inr binaryString \<Rightarrow> Inr (map ucast binaryString))"

text \<open>
  \<open>addFile\<close> first settles \<open>fileData\<close>: a string is decoded or encoded into a new array,
  an array argument is kept by reference, and \<open>undefined\<close> (which \<open>addImageFromDataURL\<close>
  can pass) is kept as it is, so that \<open>data.length\<close> in \<open>calculateCRC32\<close> raises
  \<open>TypeError\<close>. Only then the entry is pushed. The result is the outcome together with
  the builder and the store after the call.
\<close>

definition addFile ::
  "js_string \<Rightarrow> js_value \<Rightarrow> bool \<Rightarrow> CustomZipCreator \<Rightarrow> heap
     \<Rightarrow> (error + unit) \<times> CustomZipCreator \<times> heap" where
  "addFile name d isBase64 this h =
     (case (case d of
              JSString s \<Rightarrow>
                (if isBase64
                 then (case base64ToUint8Array s of
                         Inl e \<Rightarrow> Inl e
                       | Inr bs \<Rightarrow> Inr (alloc bs h))
                 else Inr (alloc (TextEncoder_encode s) h))
            | JSBytes r \<Rightarrow> Inr (r, h)
            | JSUndefined \<Rightarrow> Inl TypeError) of
        Inl e \<Rightarrow> (Inl e, this, h)
      | Inr (fileData, h') \<Rightarrow>
          (Inr (),
           this\<lparr>entries := entries this @
             [\<lparr>filename = name, data = fileData, crc32 = calculateCRC32 (h' ! fileData)\<rparr>]\<rparr>,
           h'))"

definition addImageFromDataURL ::
  "js_string \<Rightarrow> js_string \<Rightarrow> CustomZipCreator \<Rightarrow> heap
     \<Rightarrow> (error + unit) \<times> CustomZipCreator \<times> heap" where
  "addImageFromDataURL name dataURL this h =
     (let base64Data = js_index (js_split 0x2C dataURL) 1
      in addFile name base64Data True this h)"

section \<open>Headers and records\<close>

text \<open>
  Each of the three functions allocates a zeroed array, writes the fields through a
  \<open>DataView\<close> on it and copies the encoded name behind them. The result is the content
  of the new array; \<open>None\<close> is a \<open>RangeError\<close> of one of the writes.
\<close>

definition createLocalFileHeader :: "js_string \<Rightarrow> nat \<Rightarrow> nat \<Rightarrow> bytes option" where
  "createLocalFileHeader name fileSize crc =
     (let filenameBytes = TextEncoder_encode name;
          header = replicate (30 + length filenameBytes) 0
      in do {
        header \<leftarrow> setUint32 0 0x04034b50 header;
        header \<leftarrow> setUint16 4 20 header;
        header \<leftarrow> setUint16 6 0 header;
        header \<leftarrow> setUint16 8 0 header;
        header \<leftarrow> setUint16 10 0 header;
        header \<leftarrow> setUint16 12 0 header;
        header \<leftarrow> setUint32 14 crc header;
        header \<leftarrow> setUint32 18 fileSize header;
        header \<leftarrow> setUint32 22 fileSize header;
        header \<leftarrow> setUint16 26 (length filenameBytes) header;
        header \<leftarrow> setUint16 28 0 header;
        set_array filenameBytes 30 header
      })"

definition createCentralDirectoryEntry ::
  "js_string \<Rightarrow> nat \<Rightarrow> nat \<Rightarrow> nat \<Rightarrow> bytes option" where
  "createCentralDirectoryEntry name fileSize crc offset =
     (let filenameBytes = TextEncoder_encode name;
          entry = replicate (46 + length filenameBytes) 0
      in do {
        entry \<leftarrow> setUint32 0 0x02014b50 entry;
        entry \<leftarrow> setUint16 4 20 entry;
        entry \<leftarrow> setUint16 6 20 entry;
        entry \<leftarrow> setUint16 8 0 entry;
        entry \<leftarrow> setUint16 10 0 entry;
        entry \<leftarrow> setUint16 12 0 entry;
        entry \<leftarrow> setUint16 14 0 entry;
        entry \<leftarrow> setUint32 16 crc entry;
        entry \<leftarrow> setUint32 20 fileSize entry;
        entry \<leftarrow> setUint32 24 fileSize entry;
        entry \<leftarrow> setUint16 28 (length filenameBytes) entry;
        entry \<leftarrow> setUint16 30 0 entry;
        entry \<leftarrow> setUint16 32 0 entry;
        entry \<leftarrow> setUint16 34 0 entry;
        entry \<leftarrow> setUint16 36 0 entry;
        entry \<leftarrow> setUint32 38 0 entry;
        entry \<leftarrow> setUint32 42 offset entry;
        set_array filenameBytes 46 entry
      })"

definition createEndOfCentralDirectory :: "nat \<Rightarrow> nat \<Rightarrow> nat \<Rightarrow> bytes option" where
  "createEndOfCentralDirectory totalEntries centralDirectorySize centralDirectoryOffset =
     (let record = replicate 22 0
      in do {
        record \<leftarrow> setUint32 0 0x06054b50 record;
        record \<leftarrow> setUint16 4 0 record;
        record \<leftarrow> setUint16 6 0 record;
        record \<leftarrow> setUint16 8 totalEntries record;
        record \<leftarrow> setUint16 10 totalEntries record;
        record \<leftarrow> setUint32 12 centralDirectorySize record;
        record \<leftarrow> setUint32 16 centralDirectoryOffset record;
        setUint16 20 0 record
      })"

section \<open>Finalisation\<close>

text \<open>
  \<open>createZip\<close> runs four iterations in turn. \<open>writeEntries\<close> is the loop over \<open>this.entries\<close>: it
  allocates the local header and the central directory record of each entry, pushes the
  header and the entry's own array (the same reference, not a copy) onto \<open>zipParts\<close>, the
  record onto \<open>centralDirectory\<close>, and advances \<open>offset\<close>. \<open>pushCentral\<close> is the loop over
  \<open>centralDirectory\<close>. \<open>totalSize\<close> is the \<open>reduce\<close>. \<open>copyParts\<close> is the loop that copies
  each part into \<open>zipArray\<close> with \<open>TypedArray.set\<close>. The blob that is returned holds a
  copy of \<open>zipArray\<close>.
\<close>

fun writeEntries ::
  "ZipEntry list \<Rightarrow> ref list \<Rightarrow> ref list \<Rightarrow> nat \<Rightarrow> heap
     \<Rightarrow> (ref list \<times> ref list \<times> nat \<times> heap) option" where
  "writeEntries [] zipParts centralDirectory offset h =
     Some (zipParts, centralDirectory, offset, h)"
| "writeEntries (entry # rest) zipParts centralDirectory offset h =
     (let fileData = data entry in
      case createLocalFileHeader (filename entry) (length (h ! fileData)) (crc32 entry) of
        None \<Rightarrow> None
      | Some lh \<Rightarrow>
          (let (localHeader, h1) = alloc lh h in
           case createCentralDirectoryEntry (filename entry) (length (h1 ! fileData))
                  (crc32 entry) offset of
             None \<Rightarrow> None
           | Some ce \<Rightarrow>
               (let (centralEntry, h2) = alloc ce h1 in
                writeEntries rest (zipParts @ [localHeader, fileData])
                  (centralDirectory @ [centralEntry])
                  (offset + length (h2 ! localHeader) + length (h2 ! fileData)) h2)))"

fun pushCentral :: "ref list \<Rightarrow> ref list \<Rightarrow> nat \<Rightarrow> heap \<Rightarrow> ref list \<times> nat" where
  "pushCentral [] zipParts centralDirectorySize h = (zipParts, centralDirectorySize)"
| "pushCentral (entry # rest) zipParts centralDirectorySize h =
     pushCentral rest (zipParts @ [entry]) (centralDirectorySize + length (h ! entry)) h"

definition totalSize :: "ref list \<Rightarrow> heap \<Rightarrow> nat" where
  "totalSize zipParts h = foldl (\<lambda>sum part. sum + length (h ! part)) 0 zipParts"

fun copyParts :: "ref list \<Rightarrow> ref \<Rightarrow> nat \<Rightarrow> heap \<Rightarrow> heap option" where
  "copyParts [] zipArray pos h = Some h"
| "copyParts (part # rest) zipArray pos h =
     (case set_array (h ! part) pos (h ! zipArray) of
        None \<Rightarrow> None
      | Some a \<Rightarrow> copyParts rest zipArray (pos + length (h ! part)) (h[zipArray := a]))"

definition createZip ::
  "CustomZipCreator \<Rightarrow> heap \<Rightarrow> (error + bytes) \<times> CustomZipCreator \<times> heap" where
  "createZip this h =
     (case writeEntries (entries this) [] [] 0 h of
        None \<Rightarrow> (Inl RangeError, this, h)
      | Some (zipParts, centralDirectory, offset, h1) \<Rightarrow>
          (let centralDirectoryStart = offset;
               (zipParts, centralDirectorySize) = pushCentral centralDirectory zipParts 0 h1
           in case createEndOfCentralDirectory (length (entries this)) centralDirectorySize
                     centralDirectoryStart of
                None \<Rightarrow> (Inl RangeError, this, h1)
              | Some er \<Rightarrow>
                  (let (endRecord, h2) = alloc er h1;
                       zipParts = zipParts @ [endRecord];
                       (zipArray, h3) = alloc (replicate (totalSize zipParts h2) 0) h2
                   in case copyParts zipParts zipArray 0 h3 of
                        None \<Rightarrow> (Inl RangeError, this, h3)
                      | Some h4 \<Rightarrow> (Inr (h4 ! zipArray), this, h4))))"

section \<open>Layout of the archive\<close>

text \<open>
  The byte layout that the functions above produce, written as lists: the little-endian
  bytes of a 16- and a 32-bit field, the three kinds of record with their fields in
  order, the local section of an entry (header, name and payload), the central directory
  records with the running offset, and the whole archive. The lemmas below show that
  the code produces exactly these lists.
\<close>

definition le16 :: "nat \<Rightarrow> bytes" where
  "le16 v = [of_nat v, of_nat (v div 2 ^ 8)]"

definition le32 :: "nat \<Rightarrow> bytes" where
  "le32 v = [of_nat v, of_nat (v div 2 ^ 8), of_nat (v div 2 ^ 16), of_nat (v div 2 ^ 24)]"

definition localHeaderBytes :: "js_string \<Rightarrow> nat \<Rightarrow> nat \<Rightarrow> bytes" where
  "localHeaderBytes name fileSize crc =
     le32 0x04034b50 @ le16 20 @ le16 0 @ le16 0 @ le16 0 @ le16 0 @ le32 crc @ le32 fileSize
     @ le32 fileSize @ le16 (length (TextEncoder_encode name)) @ le16 0 @ TextEncoder_encode name"

definition centralRecordBytes :: "js_string \<Rightarrow> nat \<Rightarrow> nat \<Rightarrow> nat \<Rightarrow> bytes" where
  "centralRecordBytes name fileSize crc offset =
     le32 0x02014b50 @ le16 20 @ le16 20 @ le16 0 @ le16 0 @ le16 0 @ le16 0 @ le32 crc
     @ le32 fileSize @ le32 fileSize @ le16 (length (TextEncoder_encode name)) @ le16 0 @ le16 0
     @ le16 0 @ le16 0 @ le32 0 @ le32 offset @ TextEncoder_encode name"

definition endRecordBytes :: "nat \<Rightarrow> nat \<Rightarrow> nat \<Rightarrow> bytes" where
  "endRecordBytes totalEntries centralDirectorySize centralDirectoryOffset =
     le32 0x06054b50 @ le16 0 @ le16 0 @ le16 totalEntries @ le16 totalEntries
     @ le32 centralDirectorySize @ le32 centralDirectoryOffset @ le16 0"

definition localSection :: "heap \<Rightarrow> ZipEntry \<Rightarrow> bytes" where
  "localSection h e =
     localHeaderBytes (filename e) (length (h ! data e)) (crc32 e) @ h ! data e"

fun centralRecords :: "heap \<Rightarrow> nat \<Rightarrow> ZipEntry list \<Rightarrow> bytes list" where
  "centralRecords h offset [] = []"
| "centralRecords h offset (e # es) =
     centralRecordBytes (filename e) (length (h ! data e)) (crc32 e) offset
     # centralRecords h (offset + length (localSection h e)) es"

definition archive :: "heap \<Rightarrow> ZipEntry list \<Rightarrow> bytes" where
  "archive h es =
     concat (map (localSection h) es) @ concat (centralRecords h 0 es)
     @ endRecordBytes (length es) (length (concat (centralRecords h 0 es)))
         (length (concat (map (localSection h) es)))"

text \<open>
  The byte index at which the local section and the central directory record of the
  \<open>i\<close>-th entry begin: every local section before it takes 30 bytes, the encoded name and
  the payload; the central directory follows the last local section, and every record
  before the \<open>i\<close>-th takes 46 bytes and the encoded name.
\<close>

definition localHeaderPos :: "heap \<Rightarrow> ZipEntry list \<Rightarrow> nat \<Rightarrow> nat" where
  "localHeaderPos h es i =
     (\<Sum>e\<leftarrow>take i es. 30 + length (TextEncoder_encode (filename e)) + length (h ! data e))"

definition centralRecordPos :: "heap \<Rightarrow> ZipEntry list \<Rightarrow> nat \<Rightarrow> nat" where
  "centralRecordPos h es i =
     localHeaderPos h es (length es)
     + (\<Sum>e\<leftarrow>take i es. 46 + length (TextEncoder_encode (filename e)))"

section \<open>Populating a builder\<close>

text \<open>
  The entries are private, so a builder is populated only by calls of \<open>addFile\<close> and
  \<open>addImageFromDataURL\<close> on a new object. A call that raises leaves the caller with
  the builder as the call left it. A typed array handed to \<open>addFile\<close> must exist in the
  store (\<open>callOk\<close>). The caller does not write to an array after handing it over.
\<close>

datatype call = AddFile js_string js_value bool | AddImageFromDataURL js_string js_string

fun perform :: "call \<Rightarrow> CustomZipCreator \<times> heap \<Rightarrow> CustomZipCreator \<times> heap" where
  "perform (AddFile name d isBase64) (this, h) = snd (addFile name d isBase64 this h)"
| "perform (AddImageFromDataURL name dataURL) (this, h) =
     snd (addImageFromDataURL name dataURL this h)"

definition populate :: "call list \<Rightarrow> heap \<Rightarrow> CustomZipCreator \<times> heap" where
  "populate calls h = foldl (\<lambda>s c. perform c s) (new_CustomZipCreator, h) calls"

fun callOk :: "heap \<Rightarrow> call \<Rightarrow> bool" where
  "callOk h (AddFile name (JSBytes r) isBase64) \<longleftrightarrow> r < length h"
| "callOk h c \<longleftrightarrow> True"

text \<open>
  The invariant of a populated builder: every entry refers to an array of the store and
  carries the checksum of that array's bytes.
\<close>

definition consistent :: "CustomZipCreator \<Rightarrow> heap \<Rightarrow> bool" where
  "consistent this h \<longleftrightarrow>
     (\<forall>e\<in>set (entries this). data e < length h \<and> crc32 e = calculateCRC32 (h ! data e))"

section \<open>Scenarios\<close>

text \<open>
  A typed array of \<open>2^32\<close> zero bytes, and the entry that \<open>addFile\<close> makes of it when it
  is the first array of the store: the smallest payload whose length does not fit a
  32-bit field.
\<close>

definition bigArray :: bytes where
  "bigArray = replicate (2 ^ 32) 0"

definition bigEntry :: "string \<Rightarrow> ZipEntry" where
  "bigEntry name = \<lparr>filename = ascii name, data = 0, crc32 = calculateCRC32 bigArray\<rparr>"

text \<open>
  A typed array of \<open>2^31\<close> zero bytes, which fits a 32-bit size field, and the entry that
  \<open>addFile\<close> makes of such an array at reference \<open>r\<close> of the store.
\<close>

definition halfArray :: bytes where
  "halfArray = replicate (2 ^ 31) 0"

definition halfEntry :: "string \<Rightarrow> ref \<Rightarrow> ZipEntry" where
  "halfEntry name r = \<lparr>filename = ascii name, data = r, crc32 = calculateCRC32 halfArray\<rparr>"

text \<open>A name of 65536 letters \<open>a\<close>: one byte more than a 16-bit length field can hold.\<close>

definition longName :: js_string where
  "longName = replicate 65536 0x61"

text \<open>
  The builder after adding the one entry \<open>page_1.png\<close> with the payload
  \<open>89 50 4E 47\<close>, and the 122 bytes of its archive as the ZIP format lays them out.
\<close>

definition page1Archive :: bytes where
  "page1Archive =
    [0x50, 0x4B, 0x03, 0x04, 0x14, 0x00, 0x00, 0x00, 0x00, 0x00, 0x00, 0x00, 0x00, 0x00,
     0xA5, 0xBE, 0xEB, 0x5B, 0x04, 0x00, 0x00, 0x00, 0x04, 0x00, 0x00, 0x00, 0x0A, 0x00,
     0x00, 0x00, 0x70, 0x61, 0x67, 0x65, 0x5F, 0x31, 0x2E, 0x70, 0x6E, 0x67, 0x89, 0x50,
     0x4E, 0x47, 0x50, 0x4B, 0x01, 0x02, 0x14, 0x00, 0x14, 0x00, 0x00, 0x00, 0x00, 0x00,
     0x00, 0x00, 0x00, 0x00, 0xA5, 0xBE, 0xEB, 0x5B, 0x04, 0x00, 0x00, 0x00, 0x04, 0x00,
     0x00, 0x00, 0x0A, 0x00, 0x00, 0x00, 0x00, 0x00, 0x00, 0x00, 0x00, 0x00, 0x00, 0x00,
     0x00, 0x00, 0x00, 0x00, 0x00, 0x00, 0x70, 0x61, 0x67, 0x65, 0x5F, 0x31, 0x2E, 0x70,
     0x6E, 0x67, 0x50, 0x4B, 0x05, 0x06, 0x00, 0x00, 0x00, 0x00, 0x01, 0x00, 0x01, 0x00,
     0x38, 0x00, 0x00, 0x00, 0x2C, 0x00, 0x00, 0x00, 0x00, 0x00]"

definition page1Builder :: CustomZipCreator where
  "page1Builder =
     \<lparr>entries = [\<lparr>filename = ascii ''page_1.png'', data = 0, crc32 = 0x5BEBBEA5\<rparr>]\<rparr>"

section \<open>The checksum on the test vectors\<close>

lemma crcTable_nth: "i < 256 \<Longrightarrow> crcTable ! i = (crcStep ^^ 8) (of_nat i)"
  unfolding crcTable_def by (subst nth_map_upt) simp_all

lemma funpow8: "(f ^^ 8) x = f (f (f (f (f (f (f (f x)))))))"
  by (simp add: eval_nat_numeral)

lemmas crc_eval = calculateCRC32_def crcUpdate_def crcTable_nth funpow8 crcStep_def

text \<open>
  The table-driven update of the register by one byte is the eight single-bit steps of
  the reference: the step is linear over XOR, and on a word whose low byte is zero
  eight steps are a shift by eight.
\<close>

lemma crcStep_reference: "crcStep = referenceShift"
proof
  fix x :: "32 word"
  have "x AND 1 \<noteq> 0 \<longleftrightarrow> bit x 0"
    by (auto simp: and_one_eq bit_0 odd_iff_mod_2_eq_one)
  then show "crcStep x = referenceShift x"
    by (simp add: crcStep_def referenceShift_def xor.commute)
qed

lemma referenceShift_xor: "referenceShift (x XOR y) = referenceShift x XOR referenceShift y"
  by (simp add: referenceShift_def bit_xor_iff xor.assoc xor.commute xor.left_commute)

lemma referenceShift_funpow_xor:
  "(referenceShift ^^ k) (x XOR y) = (referenceShift ^^ k) x XOR (referenceShift ^^ k) y"
  by (induction k) (simp_all add: referenceShift_xor)

lemma referenceShift_high:
  "\<forall>i<8. \<not> bit y i \<Longrightarrow> k \<le> 8 \<Longrightarrow> (referenceShift ^^ k) y = drop_bit k y"
proof (induction k)
  case 0
  show ?case by simp
next
  case (Suc k)
  then have "\<not> bit (drop_bit k y) 0"
    by (simp add: bit_drop_bit_eq)
  with Suc show ?case
    by (simp add: referenceShift_def)
qed

lemma split_low_byte: "x = (x AND 0xff) XOR (x AND NOT 0xff)" for x :: "32 word"
proof -
  have "(0xff :: 32 word) = mask 8" by (simp add: mask_eq_exp_minus_1)
  then show ?thesis
    by (auto intro!: bit_eqI simp: bit_simps)
qed

lemma referenceShift_byte:
  "(referenceShift ^^ 8) x = (referenceShift ^^ 8) (x AND 0xff) XOR drop_bit 8 x" for x :: "32 word"
proof -
  have m: "(0xff :: 32 word) = mask 8" by (simp add: mask_eq_exp_minus_1)
  have hi: "\<forall>i<8. \<not> bit (x AND NOT 0xff) i"
    unfolding m by (simp add: bit_simps)
  have "(referenceShift ^^ 8) x = (referenceShift ^^ 8) ((x AND 0xff) XOR (x AND NOT 0xff))"
    using split_low_byte[of x] by simp
  also have "\<dots> = (referenceShift ^^ 8) (x AND 0xff) XOR (referenceShift ^^ 8) (x AND NOT 0xff)"
    by (rule referenceShift_funpow_xor)
  also have "(referenceShift ^^ 8) (x AND NOT 0xff) = drop_bit 8 (x AND NOT 0xff)"
    using hi by (rule referenceShift_high) simp
  also have "drop_bit 8 (x AND NOT 0xff) = drop_bit 8 x"
    unfolding m
  proof (rule bit_eqI)
    fix n
    show "bit (drop_bit 8 (x AND NOT (mask 8))) n \<longleftrightarrow> bit (drop_bit 8 x) n"
      using bit_imp_le_length[of x "8 + n"] by (auto simp: bit_simps)
  qed
  finally show ?thesis .
qed

lemma crcUpdate_reference: "crcUpdate crc b = (referenceShift ^^ 8) (crc XOR ucast b)"
proof -
  let ?x = "crc XOR ucast b"
  have m: "(0xff :: 32 word) = mask 8" by (simp add: mask_eq_exp_minus_1)
  have "?x AND 0xff \<le> 0xff" by (rule word_and_le1)
  then have i: "unat (?x AND 0xff) < 256"
    by (simp add: word_le_nat_alt)
  have t: "crcTable ! unat (?x AND 0xff) = (referenceShift ^^ 8) (?x AND 0xff)"
    using crcTable_nth[OF i] by (simp add: crcStep_reference)
  have "drop_bit 8 (ucast b :: 32 word) = 0"
  proof (rule bit_eqI)
    fix n
    show "bit (drop_bit 8 (ucast b :: 32 word)) n \<longleftrightarrow> bit (0 :: 32 word) n"
      using bit_imp_le_length[of b "8 + n"] by (auto simp: bit_simps)
  qed
  then have d: "drop_bit 8 ?x = drop_bit 8 crc" by simp
  show ?thesis
    unfolding crcUpdate_def t referenceShift_byte[of ?x] d ..
qed

lemma calculateCRC32_reference: "calculateCRC32 bs = crc32Reference bs"
proof -
  have "crcUpdate = (\<lambda>crc b. (referenceShift ^^ 8) (crc XOR ucast b))"
    by (intro ext) (rule crcUpdate_reference)
  moreover have "x XOR 0xffffffff = NOT x" for x :: "32 word"
  proof -
    have "(0xffffffff :: 32 word) = - 1" by simp
    then show ?thesis by (simp only: bit.xor_one_right)
  qed
  ultimately show ?thesis
    by (simp add: calculateCRC32_def crc32Reference_def)
qed


text \<open>
  C1. \<open>calculateCRC32\<close> computes CRC-32/ISO-HDLC: on every byte sequence it agrees with
  the bit-by-bit reference; the checksum of the empty byte sequence is \<open>0x00000000\<close>, and
  the checksum of the nine ASCII bytes of \<open>123456789\<close> is \<open>0xCBF43926\<close>.
\<close>

theorem calculateCRC32_crc32_iso_hdlc:
  "(\<forall>bs. calculateCRC32 bs = crc32Reference bs)
   \<and> calculateCRC32 [] = 0x00000000
   \<and> calculateCRC32 [0x31, 0x32, 0x33, 0x34, 0x35, 0x36, 0x37, 0x38, 0x39] = 0xCBF43926"
  by (simp add: calculateCRC32_reference [symmetric]) (simp add: crc_eval)

section \<open>The records as byte lists\<close>

lemma list_update_Cons_numeral:
  "(x # xs)[numeral k := y] = x # xs[pred_numeral k := y]"
  by (simp add: numeral_eq_Suc)

lemma replicate22: "replicate 22 (0::byte) = [0,0,0,0,0,0,0,0,0,0,0,0,0,0,0,0,0,0,0,0,0,0]"
  by (simp add: eval_nat_numeral)

lemma replicate30: "replicate 30 (0::byte) = replicate 22 0 @ [0,0,0,0,0,0,0,0]"
  by (simp add: eval_nat_numeral)

lemma replicate46: "replicate 46 (0::byte) = replicate 22 0 @ replicate 22 0 @ [0,0]"
  by (simp add: eval_nat_numeral)

lemma createLocalFileHeader_eq:
  "createLocalFileHeader name fileSize crc = Some (localHeaderBytes name fileSize crc)"
  unfolding createLocalFileHeader_def localHeaderBytes_def Let_def
  apply (simp add: setUint16_def setUint32_def set_array_def)
  apply (simp add: replicate_add list_update_append1 replicate30 replicate22 list_update_Cons_numeral le16_def le32_def)
  done

lemma createCentralDirectoryEntry_eq:
  "createCentralDirectoryEntry name fileSize crc offset =
     Some (centralRecordBytes name fileSize crc offset)"
  unfolding createCentralDirectoryEntry_def centralRecordBytes_def Let_def
  apply (simp add: setUint16_def setUint32_def set_array_def)
  apply (simp add: replicate_add list_update_append1 replicate46 replicate22 list_update_Cons_numeral le16_def le32_def)
  done

lemma createEndOfCentralDirectory_eq:
  "createEndOfCentralDirectory n sz off = Some (endRecordBytes n sz off)"
  unfolding createEndOfCentralDirectory_def endRecordBytes_def Let_def
  apply (simp add: setUint16_def setUint32_def)
  apply (simp add: replicate22 list_update_Cons_numeral le16_def le32_def)
  done

lemma length_localHeaderBytes:
  "length (localHeaderBytes name sz crc) = 30 + length (TextEncoder_encode name)"
  by (simp add: localHeaderBytes_def le16_def le32_def)

lemma length_centralRecordBytes:
  "length (centralRecordBytes name sz crc off) = 46 + length (TextEncoder_encode name)"
  by (simp add: centralRecordBytes_def le16_def le32_def)

lemma length_endRecordBytes: "length (endRecordBytes n sz off) = 22"
  by (simp add: endRecordBytes_def le16_def le32_def)

lemma localSection_extend:
  "data e < length h \<Longrightarrow> localSection (h @ h') e = localSection h e"
  by (simp add: localSection_def nth_append)

lemma centralRecords_extend:
  "\<forall>e\<in>set es. data e < length h \<Longrightarrow> centralRecords (h @ h') off es = centralRecords h off es"
  by (induction es arbitrary: off) (simp_all add: nth_append localSection_extend)

lemma writeEntries_layout:
  "\<forall>e\<in>set es. data e < length h \<Longrightarrow>
   \<exists>parts cds news.
     writeEntries es zp cd off h =
       Some (zp @ parts, cd @ cds, off + length (concat (map (localSection h) es)), h @ news)
     \<and> (\<forall>p\<in>set parts. p < length (h @ news))
     \<and> (\<forall>c\<in>set cds. c < length (h @ news))
     \<and> concat (map (\<lambda>p. (h @ news) ! p) parts) = concat (map (localSection h) es)
     \<and> map (\<lambda>c. (h @ news) ! c) cds = centralRecords h off es"
proof (induction es arbitrary: zp cd off h)
  case Nil
  show ?case by (rule exI[of _ "[]"], rule exI[of _ "[]"], rule exI[of _ "[]"]) simp
next
  case (Cons e es)
  let ?lh = "localHeaderBytes (filename e) (length (h ! data e)) (crc32 e)"
  let ?ce = "centralRecordBytes (filename e) (length (h ! data e)) (crc32 e) off"
  let ?h2 = "h @ [?lh, ?ce]"
  from Cons.prems have d: "data e < length h" and rest: "\<forall>x\<in>set es. data x < length h"
    by simp_all
  from rest have rest2: "\<forall>x\<in>set es. data x < length ?h2" by auto
  let ?off' = "off + length ?lh + length (h ! data e)"
  from Cons.IH[OF rest2, of "zp @ [length h, data e]" "cd @ [Suc (length h)]" ?off']
  obtain parts cds news where
    w: "writeEntries es (zp @ [length h, data e]) (cd @ [Suc (length h)]) ?off' ?h2 =
       Some ((zp @ [length h, data e]) @ parts, (cd @ [Suc (length h)]) @ cds,
             ?off' + length (concat (map (localSection ?h2) es)), ?h2 @ news)"
    and p: "\<forall>p\<in>set parts. p < length (?h2 @ news)"
    and c: "\<forall>c\<in>set cds. c < length (?h2 @ news)"
    and cp: "concat (map (\<lambda>p. (?h2 @ news) ! p) parts) = concat (map (localSection ?h2) es)"
    and cc: "map (\<lambda>c. (?h2 @ news) ! c) cds = centralRecords ?h2 ?off' es"
    by blast
  have ls: "map (localSection ?h2) es = map (localSection h) es"
    using rest by (simp add: localSection_extend)
  have cr: "centralRecords ?h2 ?off' es = centralRecords h ?off' es"
    using rest by (rule centralRecords_extend)
  have step: "writeEntries (e # es) zp cd off h =
      writeEntries es (zp @ [length h, data e]) (cd @ [Suc (length h)]) ?off' ?h2"
    using d by (simp add: createLocalFileHeader_eq createCentralDirectoryEntry_eq alloc_def
        nth_append Let_def)
  show ?case
  proof (intro exI conjI)
    show "writeEntries (e # es) zp cd off h =
       Some (zp @ ([length h, data e] @ parts), cd @ (Suc (length h) # cds),
             off + length (concat (map (localSection h) (e # es))), h @ ([?lh, ?ce] @ news))"
      using step w ls by (simp add: localSection_def)
    show "\<forall>p\<in>set ([length h, data e] @ parts). p < length (h @ [?lh, ?ce] @ news)"
      using p d by auto
    show "\<forall>c\<in>set (Suc (length h) # cds). c < length (h @ [?lh, ?ce] @ news)"
      using c by auto
    show "concat (map (\<lambda>p. (h @ [?lh, ?ce] @ news) ! p) ([length h, data e] @ parts))
          = concat (map (localSection h) (e # es))"
      using cp ls d by (simp add: nth_append localSection_def)
    show "map (\<lambda>c. (h @ [?lh, ?ce] @ news) ! c) (Suc (length h) # cds) = centralRecords h off (e # es)"
      using cc cr by (simp add: nth_append localSection_def add.assoc)
  qed
qed


lemma pushCentral_eq:
  "pushCentral cds zp sz h = (zp @ cds, sz + length (concat (map (\<lambda>c. h ! c) cds)))"
  by (induction cds arbitrary: zp sz) simp_all

lemma foldl_sizes:
  "foldl (\<lambda>sum part. sum + length (h ! part)) a zp = a + length (concat (map (\<lambda>p. h ! p) zp))"
  by (induction zp arbitrary: a) simp_all

lemma totalSize_eq: "totalSize zp h = length (concat (map (\<lambda>p. h ! p) zp))"
  by (simp add: totalSize_def foldl_sizes)

lemma copyParts_eq:
  "\<forall>p\<in>set parts. p \<noteq> za \<Longrightarrow> za < length h \<Longrightarrow>
   pos + length (concat (map (\<lambda>p. h ! p) parts)) \<le> length (h ! za) \<Longrightarrow>
   copyParts parts za pos h =
     Some (h[za := take pos (h ! za) @ concat (map (\<lambda>p. h ! p) parts)
                   @ drop (pos + length (concat (map (\<lambda>p. h ! p) parts))) (h ! za)])"
proof (induction parts arbitrary: pos h)
  case Nil
  then show ?case by simp
next
  case (Cons p parts)
  let ?A = "h ! za"
  let ?a = "take pos ?A @ h ! p @ drop (pos + length (h ! p)) ?A"
  let ?h' = "h[za := ?a]"
  let ?rest = "concat (map (\<lambda>q. h ! q) parts)"
  from Cons.prems have ne: "p \<noteq> za" and nes: "\<forall>q\<in>set parts. q \<noteq> za"
    and za: "za < length h"
    and fit: "pos + length (h ! p) + length ?rest \<le> length ?A"
    by (simp_all add: add.assoc)
  have same: "map (\<lambda>q. ?h' ! q) parts = map (\<lambda>q. h ! q) parts"
  proof (rule map_cong[OF refl])
    fix q assume "q \<in> set parts"
    with nes have "za \<noteq> q" by auto
    then show "?h' ! q = h ! q" by simp
  qed
  have p_same: "?h' ! p = h ! p" using ne by simp
  have za': "?h' ! za = ?a" using za by simp
  have len_a: "length ?a = length ?A" using fit by simp
  have s: "set_array (h ! p) pos ?A = Some ?a"
    using fit by (simp add: set_array_def)
  have step: "copyParts (p # parts) za pos h = copyParts parts za (pos + length (h ! p)) ?h'"
    using s by simp
  have ih: "copyParts parts za (pos + length (h ! p)) ?h' =
     Some (?h'[za := take (pos + length (h ! p)) (?h' ! za) @ concat (map (\<lambda>q. ?h' ! q) parts)
        @ drop (pos + length (h ! p) + length (concat (map (\<lambda>q. ?h' ! q) parts))) (?h' ! za)])"
  proof (rule Cons.IH)
    show "\<forall>q\<in>set parts. q \<noteq> za" by fact
    show "za < length ?h'" using za by simp
    show "pos + length (h ! p) + length (concat (map (\<lambda>q. ?h' ! q) parts)) \<le> length (?h' ! za)"
      unfolding same za' len_a using fit .
  qed
  have t: "take (pos + length (h ! p)) ?a = take pos ?A @ h ! p"
    using fit by simp
  have d: "drop (pos + length (h ! p) + length ?rest) ?a
           = drop (pos + length (h ! p) + length ?rest) ?A"
    using fit by (simp add: ac_simps)
  show ?case
    unfolding step ih za' same t d by (simp add: add.assoc)
qed

lemma createZip_layout:
  assumes "\<forall>e\<in>set (entries this). data e < length h"
  shows "\<exists>news. createZip this h = (Inr (archive h (entries this)), this, h @ news)"
proof -
  let ?es = "entries this"
  let ?L = "concat (map (localSection h) ?es)"
  let ?C = "concat (centralRecords h 0 ?es)"
  from writeEntries_layout[OF assms, of "[]" "[]" 0]
  obtain parts cds news where
    w: "writeEntries ?es [] [] 0 h = Some (parts, cds, length ?L, h @ news)"
    and p: "\<forall>p\<in>set parts. p < length (h @ news)"
    and c: "\<forall>c\<in>set cds. c < length (h @ news)"
    and cp: "concat (map (\<lambda>p. (h @ news) ! p) parts) = ?L"
    and cc: "map (\<lambda>c. (h @ news) ! c) cds = centralRecords h 0 ?es"
    by auto
  let ?h1 = "h @ news"
  let ?er = "endRecordBytes (length ?es) (length ?C) (length ?L)"
  let ?h2 = "?h1 @ [?er]"
  let ?zp = "(parts @ cds) @ [length ?h1]"
  let ?A = "archive h ?es"
  let ?h3 = "?h2 @ [replicate (length ?A) 0]"
  let ?za = "length ?h2"
  have old: "q < length ?h1 \<Longrightarrow> ?h3 ! q = ?h1 ! q \<and> ?h2 ! q = ?h1 ! q" for q
    using nth_append_left[of q ?h1 "[?er, replicate (length ?A) 0]"]
      nth_append_left[of q ?h1 "[?er]"] by simp
  have parts2: "map (\<lambda>p. ?h3 ! p) parts = map (\<lambda>p. ?h1 ! p) parts"
    using p old by (intro map_cong[OF refl]) blast
  have cds2: "map (\<lambda>p. ?h3 ! p) cds = map (\<lambda>p. ?h1 ! p) cds"
    using c old by (intro map_cong[OF refl]) blast
  have er3: "?h3 ! length ?h1 = ?er"
    by (simp add: nth_append)
  have content: "concat (map (\<lambda>p. ?h3 ! p) ?zp) = ?A"
    unfolding map_append concat_append parts2 cds2 cp cc
    using er3 by (simp add: archive_def)
  have content2: "concat (map (\<lambda>p. ?h2 ! p) ?zp) = ?A"
  proof -
    have "?h2 ! q = ?h3 ! q" if "q \<in> set ?zp" for q
    proof -
      from that p c have "q < length ?h2" by auto
      then show ?thesis by (rule nth_append_left[symmetric])
    qed
    then have "map (\<lambda>p. ?h2 ! p) ?zp = map (\<lambda>p. ?h3 ! p) ?zp"
      by (rule map_cong[OF refl])
    with content show ?thesis by (simp only:)
  qed
  have ne: "\<forall>q\<in>set ?zp. q \<noteq> ?za"
    using p c by auto
  have za3: "?h3 ! ?za = replicate (length ?A) 0"
    by (simp add: nth_append)
  have copy: "copyParts ?zp ?za 0 ?h3 = Some (?h3[?za := ?A])"
    using copyParts_eq[of ?zp ?za ?h3 0, OF ne] unfolding content za3 by simp
  have upd: "?h3[?za := ?A] = h @ (news @ [?er, ?A])"
    by (simp add: list_update_append)
  have res: "(?h3[?za := ?A]) ! ?za = ?A"
    by simp
  have pc: "pushCentral cds parts 0 ?h1 = (parts @ cds, length ?C)"
    unfolding pushCentral_eq cc by simp
  have ts: "totalSize ?zp ?h2 = length ?A"
    unfolding totalSize_eq content2 ..
  have "createZip this h = (Inr ?A, this, ?h3[?za := ?A])"
    by (simp only: createZip_def w option.case prod.case Let_def pc
        createEndOfCentralDirectory_eq alloc_def ts copy res)
  then show ?thesis unfolding upd by blast
qed


section \<open>Reading fields of the archive\<close>

lemma le16_value:
  "unat (of_nat v :: byte) + 2 ^ 8 * unat (of_nat (v div 2 ^ 8) :: byte) = v mod 2 ^ 16"
proof -
  have "v mod (2 ^ 8 * 2 ^ 8) = 2 ^ 8 * (v div 2 ^ 8 mod 2 ^ 8) + v mod 2 ^ 8"
    by (rule mod_mult2_eq)
  then show ?thesis by (simp add: unat_of_nat)
qed

lemma le32_value:
  "unat (of_nat v :: byte) + 2 ^ 8 * unat (of_nat (v div 2 ^ 8) :: byte)
   + 2 ^ 16 * unat (of_nat (v div 2 ^ 16) :: byte)
   + 2 ^ 24 * unat (of_nat (v div 2 ^ 24) :: byte) = v mod 2 ^ 32"
proof -
  have a: "v mod (2 ^ 16 * 2 ^ 16) = 2 ^ 16 * (v div 2 ^ 16 mod 2 ^ 16) + v mod 2 ^ 16"
    by (rule mod_mult2_eq)
  have b: "v mod 2 ^ 16 = unat (of_nat v :: byte) + 2 ^ 8 * unat (of_nat (v div 2 ^ 8) :: byte)"
    by (rule le16_value[symmetric])
  have c: "(v div 2 ^ 16) mod 2 ^ 16 = unat (of_nat (v div 2 ^ 16) :: byte)
        + 2 ^ 8 * unat (of_nat (v div 2 ^ 16 div 2 ^ 8) :: byte)"
    by (rule le16_value[symmetric])
  have d: "v div 2 ^ 16 div 2 ^ 8 = v div 2 ^ 24"
    by (simp add: div_mult2_eq[symmetric])
  show ?thesis using a unfolding b c d by simp
qed

lemma getUint32_le32: "getUint32 0 (le32 v @ r) = v mod 2 ^ 32"
  unfolding getUint32_def le32_def using le32_value[of v] by simp

lemma getUint16_le16: "getUint16 0 (le16 v @ r) = v mod 2 ^ 16"
  unfolding getUint16_def le16_def using le16_value[of v] by simp

lemma getUint32_append: "getUint32 (length p + k) (p @ s) = getUint32 k s"
  by (simp only: getUint32_def add.assoc nth_append_length_plus)

lemma getUint16_append: "getUint16 (length p + k) (p @ s) = getUint16 k s"
  by (simp only: getUint16_def add.assoc nth_append_length_plus)

lemma getUint32_prefix: "k + 4 \<le> length s \<Longrightarrow> getUint32 k (s @ r) = getUint32 k s"
  by (simp add: getUint32_def nth_append)

lemma getUint16_prefix: "k + 2 \<le> length s \<Longrightarrow> getUint16 k (s @ r) = getUint16 k s"
  by (simp add: getUint16_def nth_append)

lemma getUint32_at:
  "length p = k \<Longrightarrow> getUint32 k (p @ le32 v @ r) = v mod 2 ^ 32"
  using getUint32_append[of p 0 "le32 v @ r"] by (simp add: getUint32_le32)

lemma getUint16_at:
  "length p = k \<Longrightarrow> getUint16 k (p @ le16 v @ r) = v mod 2 ^ 16"
  using getUint16_append[of p 0 "le16 v @ r"] by (simp add: getUint16_le16)

lemma length_le16: "length (le16 v) = 2" by (simp add: le16_def)
lemma length_le32: "length (le32 v) = 4" by (simp add: le32_def)

lemma local_fields:
  "getUint32 0 (localHeaderBytes name sz crc @ r) = 0x04034b50"
  "getUint32 14 (localHeaderBytes name sz crc @ r) = crc mod 2 ^ 32"
  "getUint32 18 (localHeaderBytes name sz crc @ r) = sz mod 2 ^ 32"
  "getUint32 22 (localHeaderBytes name sz crc @ r) = sz mod 2 ^ 32"
  "getUint16 26 (localHeaderBytes name sz crc @ r) = length (TextEncoder_encode name) mod 2 ^ 16"
proof -
  let ?n = "length (TextEncoder_encode name)"
  let ?t = "le16 0 @ TextEncoder_encode name @ r"
  have "getUint32 0 ([] @ le32 0x04034b50 @ le16 20 @ le16 0 @ le16 0 @ le16 0 @ le16 0 @ le32 crc @ le32 sz @ le32 sz @ le16 ?n @ ?t) = 0x04034b50 mod 2 ^ 32"
    by (rule getUint32_at) simp
  then show "getUint32 0 (localHeaderBytes name sz crc @ r) = 0x04034b50"
    by (simp add: localHeaderBytes_def)
  have "getUint32 14 ((le32 0x04034b50 @ le16 20 @ le16 0 @ le16 0 @ le16 0 @ le16 0) @ le32 crc @ le32 sz @ le32 sz @ le16 ?n @ ?t) = crc mod 2 ^ 32"
    by (rule getUint32_at) (simp add: length_le16 length_le32)
  then show "getUint32 14 (localHeaderBytes name sz crc @ r) = crc mod 2 ^ 32"
    by (simp add: localHeaderBytes_def)
  have "getUint32 18 ((le32 0x04034b50 @ le16 20 @ le16 0 @ le16 0 @ le16 0 @ le16 0 @ le32 crc) @ le32 sz @ le32 sz @ le16 ?n @ ?t) = sz mod 2 ^ 32"
    by (rule getUint32_at) (simp add: length_le16 length_le32)
  then show "getUint32 18 (localHeaderBytes name sz crc @ r) = sz mod 2 ^ 32"
    by (simp add: localHeaderBytes_def)
  have "getUint32 22 ((le32 0x04034b50 @ le16 20 @ le16 0 @ le16 0 @ le16 0 @ le16 0 @ le32 crc @ le32 sz) @ le32 sz @ le16 ?n @ ?t) = sz mod 2 ^ 32"
    by (rule getUint32_at) (simp add: length_le16 length_le32)
  then show "getUint32 22 (localHeaderBytes name sz crc @ r) = sz mod 2 ^ 32"
    by (simp add: localHeaderBytes_def)
  have "getUint16 26 ((le32 0x04034b50 @ le16 20 @ le16 0 @ le16 0 @ le16 0 @ le16 0 @ le32 crc @ le32 sz @ le32 sz) @ le16 ?n @ ?t) = ?n mod 2 ^ 16"
    by (rule getUint16_at) (simp add: length_le16 length_le32)
  then show "getUint16 26 (localHeaderBytes name sz crc @ r) = ?n mod 2 ^ 16"
    by (simp add: localHeaderBytes_def)
qed


lemma central_fields:
  "getUint32 0 (centralRecordBytes name sz crc off @ r) = 0x02014b50"
  "getUint32 16 (centralRecordBytes name sz crc off @ r) = crc mod 2 ^ 32"
  "getUint32 20 (centralRecordBytes name sz crc off @ r) = sz mod 2 ^ 32"
  "getUint32 24 (centralRecordBytes name sz crc off @ r) = sz mod 2 ^ 32"
  "getUint32 42 (centralRecordBytes name sz crc off @ r) = off mod 2 ^ 32"
proof -
  let ?n = "length (TextEncoder_encode name)"
  let ?pre = "le32 0x02014b50 @ le16 20 @ le16 20 @ le16 0 @ le16 0 @ le16 0 @ le16 0"
  let ?mid = "le16 ?n @ le16 0 @ le16 0 @ le16 0 @ le16 0 @ le32 0"
  let ?t = "TextEncoder_encode name @ r"
  have "getUint32 0 ([] @ le32 0x02014b50 @ le16 20 @ le16 20 @ le16 0 @ le16 0 @ le16 0 @ le16 0
      @ le32 crc @ le32 sz @ le32 sz @ ?mid @ le32 off @ ?t) = 0x02014b50 mod 2 ^ 32"
    by (rule getUint32_at) simp
  then show "getUint32 0 (centralRecordBytes name sz crc off @ r) = 0x02014b50"
    by (simp add: centralRecordBytes_def)
  have "getUint32 16 (?pre @ le32 crc @ le32 sz @ le32 sz @ ?mid @ le32 off @ ?t) = crc mod 2 ^ 32"
    by (rule getUint32_at) (simp add: length_le16 length_le32)
  then show "getUint32 16 (centralRecordBytes name sz crc off @ r) = crc mod 2 ^ 32"
    by (simp add: centralRecordBytes_def)
  have "getUint32 20 ((?pre @ le32 crc) @ le32 sz @ le32 sz @ ?mid @ le32 off @ ?t) = sz mod 2 ^ 32"
    by (rule getUint32_at) (simp add: length_le16 length_le32)
  then show "getUint32 20 (centralRecordBytes name sz crc off @ r) = sz mod 2 ^ 32"
    by (simp add: centralRecordBytes_def)
  have "getUint32 24 ((?pre @ le32 crc @ le32 sz) @ le32 sz @ ?mid @ le32 off @ ?t) = sz mod 2 ^ 32"
    by (rule getUint32_at) (simp add: length_le16 length_le32)
  then show "getUint32 24 (centralRecordBytes name sz crc off @ r) = sz mod 2 ^ 32"
    by (simp add: centralRecordBytes_def)
  have "getUint32 42 ((?pre @ le32 crc @ le32 sz @ le32 sz @ ?mid) @ le32 off @ ?t) = off mod 2 ^ 32"
    by (rule getUint32_at) (simp add: length_le16 length_le32)
  then show "getUint32 42 (centralRecordBytes name sz crc off @ r) = off mod 2 ^ 32"
    by (simp add: centralRecordBytes_def)
qed

lemma length_localSection:
  "length (localSection h e)
   = 30 + length (TextEncoder_encode (filename e)) + length (h ! data e)"
  by (simp add: localSection_def length_localHeaderBytes)

lemma localHeaderPos_concat:
  "localHeaderPos h es i = length (concat (map (localSection h) (take i es)))"
  by (simp add: localHeaderPos_def length_concat comp_def length_localSection)

lemma localHeaderPos_all:
  "localHeaderPos h es (length es) = length (concat (map (localSection h) es))"
  by (simp add: localHeaderPos_concat)

lemma localHeaderPos_Cons:
  "localHeaderPos h (e # es) (Suc i) = length (localSection h e) + localHeaderPos h es i"
  by (simp add: localHeaderPos_def length_localSection)

lemma length_centralRecords: "length (centralRecords h off es) = length es"
  by (induction es arbitrary: off) simp_all

lemma centralRecords_nth:
  "i < length es \<Longrightarrow>
   centralRecords h off es ! i =
     centralRecordBytes (filename (es ! i)) (length (h ! data (es ! i))) (crc32 (es ! i))
       (off + localHeaderPos h es i)"
proof (induction es arbitrary: off i)
  case Nil
  then show ?case by simp
next
  case (Cons e es)
  show ?case
  proof (cases i)
    case 0
    then show ?thesis by (simp add: localHeaderPos_def)
  next
    case (Suc j)
    with Cons.prems have "j < length es" by simp
    from Cons.IH[OF this, of "off + length (localSection h e)"] Suc
    show ?thesis by (simp add: localHeaderPos_Cons add.assoc)
  qed
qed

lemma length_centralRecords_take:
  "length (concat (take i (centralRecords h off es)))
   = (\<Sum>e\<leftarrow>take i es. 46 + length (TextEncoder_encode (filename e)))"
proof (induction es arbitrary: off i)
  case Nil
  then show ?case by simp
next
  case (Cons e es)
  then show ?case
    by (cases i) (simp_all add: length_centralRecordBytes)
qed

lemma archive_local_split:
  assumes "i < length es"
  shows "\<exists>p r. archive h es = p @ localSection h (es ! i) @ r
               \<and> length p = localHeaderPos h es i"
proof -
  let ?f = "localSection h"
  have "es = take i es @ es ! i # drop (Suc i) es"
    using assms by (rule id_take_nth_drop)
  then have "map ?f es = map ?f (take i es) @ ?f (es ! i) # map ?f (drop (Suc i) es)"
    by (metis list.simps(9) map_append)
  then have "concat (map ?f es)
     = concat (map ?f (take i es)) @ ?f (es ! i) @ concat (map ?f (drop (Suc i) es))"
    by simp
  then have "archive h es = concat (map ?f (take i es)) @ ?f (es ! i)
     @ (concat (map ?f (drop (Suc i) es)) @ concat (centralRecords h 0 es)
        @ endRecordBytes (length es) (length (concat (centralRecords h 0 es)))
            (length (concat (map ?f es))))"
    unfolding archive_def by (simp only: append_assoc)
  then show ?thesis using localHeaderPos_concat[of h es i] by metis
qed

lemma archive_central_split:
  assumes "i < length es"
  shows "\<exists>p r. archive h es =
            p @ centralRecordBytes (filename (es ! i)) (length (h ! data (es ! i)))
                  (crc32 (es ! i)) (localHeaderPos h es i) @ r
          \<and> length p = centralRecordPos h es i"
proof -
  let ?cs = "centralRecords h 0 es"
  let ?L = "concat (map (localSection h) es)"
  have i: "i < length ?cs" using assms by (simp add: length_centralRecords)
  have "?cs = take i ?cs @ ?cs ! i # drop (Suc i) ?cs"
    using i by (rule id_take_nth_drop)
  then have "concat ?cs = concat (take i ?cs) @ ?cs ! i @ concat (drop (Suc i) ?cs)"
    by (metis concat.simps(2) concat_append)
  then have "archive h es = (?L @ concat (take i ?cs)) @ ?cs ! i
     @ (concat (drop (Suc i) ?cs) @ endRecordBytes (length es) (length (concat ?cs)) (length ?L))"
    unfolding archive_def by (simp only: append_assoc)
  moreover have "length (?L @ concat (take i ?cs)) = centralRecordPos h es i"
    by (simp add: centralRecordPos_def localHeaderPos_all length_centralRecords_take)
  moreover have "?cs ! i = centralRecordBytes (filename (es ! i)) (length (h ! data (es ! i)))
                  (crc32 (es ! i)) (localHeaderPos h es i)"
    using centralRecords_nth[OF assms, of h 0] by simp
  ultimately show ?thesis by metis
qed


section \<open>The invariant of a populated builder\<close>

lemma addFile_outcome:
  "(\<exists>e. addFile name d isBase64 this h = (Inl e, this, h))
   \<or> (\<exists>r news. addFile name d isBase64 this h =
         (Inr (), this\<lparr>entries := entries this @
            [\<lparr>filename = name, data = r, crc32 = calculateCRC32 ((h @ news) ! r)\<rparr>]\<rparr>, h @ news)
       \<and> (d = JSBytes r \<or> r = length h \<and> news \<noteq> []) \<and> (\<forall>r'. d = JSBytes r' \<longrightarrow> news = []))"
proof (cases d)
  case (JSString s)
  show ?thesis
  proof (cases isBase64)
    case True
    show ?thesis
    proof (cases "base64ToUint8Array s")
      case (Inl e)
      with JSString True show ?thesis by (simp add: addFile_def)
    next
      case (Inr bs)
      with JSString True have "addFile name d isBase64 this h =
         (Inr (), this\<lparr>entries := entries this @
            [\<lparr>filename = name, data = length h, crc32 = calculateCRC32 ((h @ [bs]) ! length h)\<rparr>]\<rparr>, h @ [bs])"
        by (simp add: addFile_def alloc_def)
      with JSString show ?thesis by blast
    qed
  next
    case False
    with JSString have "addFile name d isBase64 this h =
         (Inr (), this\<lparr>entries := entries this @
            [\<lparr>filename = name, data = length h,
              crc32 = calculateCRC32 ((h @ [TextEncoder_encode s]) ! length h)\<rparr>]\<rparr>,
          h @ [TextEncoder_encode s])"
      by (simp add: addFile_def alloc_def)
    with JSString show ?thesis by blast
  qed
next
  case (JSBytes r)
  then have "addFile name d isBase64 this h =
         (Inr (), this\<lparr>entries := entries this @
            [\<lparr>filename = name, data = r, crc32 = calculateCRC32 ((h @ []) ! r)\<rparr>]\<rparr>, h @ [])"
    by (simp add: addFile_def)
  with JSBytes show ?thesis by blast
next
  case JSUndefined
  then show ?thesis by (simp add: addFile_def)
qed

lemma consistent_extend:
  "consistent this h \<Longrightarrow> consistent this (h @ news)"
  by (auto simp: consistent_def nth_append)

lemma consistent_push:
  "consistent this h \<Longrightarrow> r < length h \<Longrightarrow>
   consistent (this\<lparr>entries := entries this @
      [\<lparr>filename = name, data = r, crc32 = calculateCRC32 (h ! r)\<rparr>]\<rparr>) h"
  by (auto simp: consistent_def)

lemma addFile_consistent:
  assumes "consistent this h" and "\<And>r. d = JSBytes r \<Longrightarrow> r < length h"
    and "addFile name d isBase64 this h = (res, this', h')"
  shows "consistent this' h' \<and> (\<exists>news. h' = h @ news)"
proof -
  from addFile_outcome[of name d isBase64 this h]
  show ?thesis
  proof
    assume "\<exists>e. addFile name d isBase64 this h = (Inl e, this, h)"
    with assms show ?thesis by auto
  next
    assume "\<exists>r news. addFile name d isBase64 this h =
         (Inr (), this\<lparr>entries := entries this @
            [\<lparr>filename = name, data = r, crc32 = calculateCRC32 ((h @ news) ! r)\<rparr>]\<rparr>, h @ news)
       \<and> (d = JSBytes r \<or> r = length h \<and> news \<noteq> []) \<and> (\<forall>r'. d = JSBytes r' \<longrightarrow> news = [])"
    then obtain r news where
      eq: "addFile name d isBase64 this h =
         (Inr (), this\<lparr>entries := entries this @
            [\<lparr>filename = name, data = r, crc32 = calculateCRC32 ((h @ news) ! r)\<rparr>]\<rparr>, h @ news)"
      and r: "d = JSBytes r \<or> r = length h \<and> news \<noteq> []"
      by blast
    from r assms(2) have "r < length (h @ news)" by auto
    with consistent_push[OF consistent_extend[OF assms(1), of news], of r name]
    have "consistent (this\<lparr>entries := entries this @
            [\<lparr>filename = name, data = r, crc32 = calculateCRC32 ((h @ news) ! r)\<rparr>]\<rparr>) (h @ news)"
      by simp
    with eq assms(3) show ?thesis by auto
  qed
qed

lemma callOk_extend: "callOk h c \<Longrightarrow> callOk (h @ news) c"
  by (induction h c rule: callOk.induct) simp_all

lemma perform_consistent:
  assumes "consistent this h" and "callOk h c" and "perform c (this, h) = (this', h')"
  shows "consistent this' h' \<and> (\<exists>news. h' = h @ news)"
proof (cases c)
  case (AddFile name d isBase64)
  obtain res where "addFile name d isBase64 this h = (res, this', h')"
    using assms(3) AddFile by (cases "addFile name d isBase64 this h") simp
  moreover have "\<And>r. d = JSBytes r \<Longrightarrow> r < length h"
    using assms(2) AddFile by simp
  ultimately show ?thesis using addFile_consistent[OF assms(1)] by blast
next
  case (AddImageFromDataURL name dataURL)
  let ?d = "js_index (js_split 0x2C dataURL) 1"
  obtain res where "addFile name ?d True this h = (res, this', h')"
    using assms(3) AddImageFromDataURL
    by (cases "addFile name ?d True this h") (simp add: addImageFromDataURL_def)
  moreover have "\<And>r. ?d = JSBytes r \<Longrightarrow> r < length h"
    by (simp add: js_index_def split: if_splits)
  ultimately show ?thesis using addFile_consistent[OF assms(1)] by blast
qed

lemma foldl_perform_consistent:
  "consistent this h \<Longrightarrow> \<forall>c\<in>set calls. callOk h c \<Longrightarrow>
   foldl (\<lambda>s c. perform c s) (this, h) calls = (this', h') \<Longrightarrow> consistent this' h'"
proof (induction calls arbitrary: this h)
  case Nil
  then show ?case by simp
next
  case (Cons c calls)
  obtain this1 h1 where p: "perform c (this, h) = (this1, h1)"
    by (cases "perform c (this, h)")
  from perform_consistent[OF Cons.prems(1) _ p] Cons.prems(2)
  obtain news where c1: "consistent this1 h1" and h1: "h1 = h @ news" by auto
  have "\<forall>c\<in>set calls. callOk h1 c"
    using Cons.prems(2) h1 by (simp add: callOk_extend)
  from Cons.IH[OF c1 this] Cons.prems(3) p show ?case by simp
qed

lemma populate_consistent:
  "\<forall>c\<in>set calls. callOk h0 c \<Longrightarrow> populate calls h0 = (this, h) \<Longrightarrow> consistent this h"
  unfolding populate_def
  by (rule foldl_perform_consistent[of new_CustomZipCreator h0])
     (simp_all add: consistent_def new_CustomZipCreator_def)


section \<open>Fields of a finalised archive\<close>

lemma calculateCRC32_bound: "calculateCRC32 bs < 2 ^ 32"
  unfolding calculateCRC32_def
  using unsigned_less[of "foldl crcUpdate 0xffffffff bs XOR 0xffffffff", where ?'a = nat]
  by simp

lemma archive_local_fields:
  assumes "i < length es"
  shows "getUint32 (localHeaderPos h es i) (archive h es) = 0x04034b50"
    and "getUint32 (localHeaderPos h es i + 14) (archive h es) = crc32 (es ! i) mod 2 ^ 32"
    and "getUint32 (localHeaderPos h es i + 18) (archive h es)
         = length (h ! data (es ! i)) mod 2 ^ 32"
    and "getUint32 (localHeaderPos h es i + 22) (archive h es)
         = length (h ! data (es ! i)) mod 2 ^ 32"
    and "take (length (localSection h (es ! i))) (drop (localHeaderPos h es i) (archive h es))
         = localSection h (es ! i)"
proof -
  from archive_local_split[OF assms, of h] obtain p r where
    a: "archive h es = p @ localSection h (es ! i) @ r" and p: "length p = localHeaderPos h es i"
    by blast
  let ?e = "es ! i"
  have s: "localSection h ?e @ r
     = localHeaderBytes (filename ?e) (length (h ! data ?e)) (crc32 ?e) @ (h ! data ?e @ r)"
    by (simp add: localSection_def)
  have rd: "getUint32 (localHeaderPos h es i + k) (archive h es)
     = getUint32 k (localHeaderBytes (filename ?e) (length (h ! data ?e)) (crc32 ?e)
                    @ (h ! data ?e @ r))" for k
    unfolding a p[symmetric] s by (rule getUint32_append)
  show "getUint32 (localHeaderPos h es i) (archive h es) = 0x04034b50"
    using rd[of 0] by (simp add: local_fields)
  show "getUint32 (localHeaderPos h es i + 14) (archive h es) = crc32 (es ! i) mod 2 ^ 32"
    unfolding rd by (rule local_fields)
  show "getUint32 (localHeaderPos h es i + 18) (archive h es)
         = length (h ! data (es ! i)) mod 2 ^ 32"
    unfolding rd by (rule local_fields)
  show "getUint32 (localHeaderPos h es i + 22) (archive h es)
         = length (h ! data (es ! i)) mod 2 ^ 32"
    unfolding rd by (rule local_fields)
  show "take (length (localSection h (es ! i))) (drop (localHeaderPos h es i) (archive h es))
         = localSection h (es ! i)"
    unfolding a p[symmetric] by simp
qed

lemma archive_central_fields:
  assumes "i < length es"
  shows "getUint32 (centralRecordPos h es i) (archive h es) = 0x02014b50"
    and "getUint32 (centralRecordPos h es i + 16) (archive h es) = crc32 (es ! i) mod 2 ^ 32"
    and "getUint32 (centralRecordPos h es i + 20) (archive h es)
         = length (h ! data (es ! i)) mod 2 ^ 32"
    and "getUint32 (centralRecordPos h es i + 24) (archive h es)
         = length (h ! data (es ! i)) mod 2 ^ 32"
    and "getUint32 (centralRecordPos h es i + 42) (archive h es)
         = localHeaderPos h es i mod 2 ^ 32"
proof -
  let ?e = "es ! i"
  let ?c = "centralRecordBytes (filename ?e) (length (h ! data ?e)) (crc32 ?e)
              (localHeaderPos h es i)"
  from archive_central_split[OF assms, of h] obtain p r where
    a: "archive h es = p @ ?c @ r" and p: "length p = centralRecordPos h es i"
    by blast
  have rd: "getUint32 (centralRecordPos h es i + k) (archive h es) = getUint32 k (?c @ r)" for k
    unfolding a p[symmetric] by (rule getUint32_append)
  show "getUint32 (centralRecordPos h es i) (archive h es) = 0x02014b50"
    using rd[of 0] by (simp add: central_fields)
  show "getUint32 (centralRecordPos h es i + 16) (archive h es) = crc32 (es ! i) mod 2 ^ 32"
    unfolding rd by (rule central_fields)
  show "getUint32 (centralRecordPos h es i + 20) (archive h es)
         = length (h ! data (es ! i)) mod 2 ^ 32"
    unfolding rd by (rule central_fields)
  show "getUint32 (centralRecordPos h es i + 24) (archive h es)
         = length (h ! data (es ! i)) mod 2 ^ 32"
    unfolding rd by (rule central_fields)
  show "getUint32 (centralRecordPos h es i + 42) (archive h es)
         = localHeaderPos h es i mod 2 ^ 32"
    unfolding rd by (rule central_fields)
qed

lemma populated_createZip:
  assumes "\<forall>c\<in>set calls. callOk h0 c" and "populate calls h0 = (this, h)"
  shows "\<exists>news. createZip this h = (Inr (archive h (entries this)), this, h @ news)"
    and "\<forall>e\<in>set (entries this). crc32 e = calculateCRC32 (h ! data e)"
proof -
  from populate_consistent[OF assms] have c: "consistent this h" .
  then have "\<forall>e\<in>set (entries this). data e < length h" by (simp add: consistent_def)
  then show "\<exists>news. createZip this h = (Inr (archive h (entries this)), this, h @ news)"
    by (rule createZip_layout)
  from c show "\<forall>e\<in>set (entries this). crc32 e = calculateCRC32 (h ! data e)"
    by (simp add: consistent_def)
qed


section \<open>Evaluating the runtime functions\<close>

lemma codePoints_ascii: "\<forall>c\<in>set s. c < 0x80 \<Longrightarrow> codePoints s = map unat s"
proof (induction s rule: codePoints.induct)
  case 1
  show ?case by simp
next
  case (2 u)
  then have "u < 0x80" by simp
  then have "\<not> 0xD800 \<le> u" "\<not> 0xDC00 \<le> u"
    by (simp_all add: word_le_nat_alt word_less_nat_alt)
  then show ?case by (simp add: scalarValue_def isHighSurrogate_def isLowSurrogate_def)
next
  case (3 u v s)
  then have "u < 0x80" by simp
  then have "\<not> 0xD800 \<le> u" "\<not> 0xDC00 \<le> u"
    by (simp_all add: word_le_nat_alt word_less_nat_alt)
  with 3 show ?case by (simp add: scalarValue_def isHighSurrogate_def isLowSurrogate_def)
qed

lemma TextEncoder_encode_ascii:
  assumes "\<forall>c\<in>set s. c < 0x80"
  shows "TextEncoder_encode s = map ucast s"
proof -
  have "concat (map utf8 (map unat s)) = map ucast s"
    using assms
  proof (induction s)
    case Nil
    show ?case by simp
  next
    case (Cons c s)
    then have "c < 0x80" by simp
    then have "unat c < 0x80" by (simp add: word_less_nat_alt)
    with Cons show ?case by (simp add: utf8_def)
  qed
  then show ?thesis using codePoints_ascii[OF assms] by (simp add: TextEncoder_encode_def)
qed


lemmas populate_eval = populate_def new_CustomZipCreator_def addFile_def addImageFromDataURL_def
  alloc_def base64ToUint8Array_def js_index_def

lemmas string_eval = ascii_def TextEncoder_encode_ascii atob_def stripPadding_def
  isAsciiWhitespace_def base64Value_def

lemmas layout_eval = archive_def localSection_def localHeaderBytes_def centralRecordBytes_def
  endRecordBytes_def le16_def le32_def

section \<open>Offsets in the central directory\<close>

text \<open>
  C2, as the code has it. For every builder populated by calls of \<open>addFile\<close> and
  \<open>addImageFromDataURL\<close> and every entry \<open>i\<close>, \<open>createZip\<close> returns a buffer in which the
  local section of the entry (header with signature \<open>0x04034B50\<close>, name, payload) lies at
  byte index \<open>localHeaderPos\<close>, its central directory record (signature \<open>0x02014B50\<close>) at
  \<open>centralRecordPos\<close>, and the relative-offset field of that record, at offset 42,
  holds the index of the local header modulo \<open>2^32\<close>: the index itself whenever the
  header begins below \<open>2^32\<close>.
\<close>

theorem createZip_central_offset:
  assumes "\<forall>c\<in>set calls. callOk h0 c" and "populate calls h0 = (this, h)"
    and "i < length (entries this)"
  shows "\<exists>buf news. createZip this h = (Inr buf, this, h @ news)
     \<and> take (length (localSection h (entries this ! i)))
          (drop (localHeaderPos h (entries this) i) buf) = localSection h (entries this ! i)
     \<and> getUint32 (localHeaderPos h (entries this) i) buf = 0x04034B50
     \<and> getUint32 (centralRecordPos h (entries this) i) buf = 0x02014B50
     \<and> getUint32 (centralRecordPos h (entries this) i + 42) buf
         = localHeaderPos h (entries this) i mod 2 ^ 32"
proof -
  from populated_createZip(1)[OF assms(1,2)] obtain news where
    "createZip this h = (Inr (archive h (entries this)), this, h @ news)" ..
  then show ?thesis
    using archive_local_fields(1,5)[OF assms(3), of h] archive_central_fields(1,5)[OF assms(3), of h]
    by blast
qed

theorem createZip_central_offset_witness:
  "callOk [[1, 2, 3]] (AddFile (ascii ''a'') (JSBytes 0) False)
   \<and> callOk [[1, 2, 3]] (AddFile (ascii ''b'') (JSString (ascii ''hi'')) False)
   \<and> populate [AddFile (ascii ''a'') (JSBytes 0) False,
                 AddFile (ascii ''b'') (JSString (ascii ''hi'')) False] [[1, 2, 3]]
       = (\<lparr>entries = [\<lparr>filename = ascii ''a'', data = 0, crc32 = calculateCRC32 [1, 2, 3]\<rparr>,
                       \<lparr>filename = ascii ''b'', data = 1, crc32 = calculateCRC32 [0x68, 0x69]\<rparr>]\<rparr>,
          [[1, 2, 3], [0x68, 0x69]])
   \<and> (\<exists>buf. fst (createZip
              \<lparr>entries = [\<lparr>filename = ascii ''a'', data = 0, crc32 = calculateCRC32 [1, 2, 3]\<rparr>,
                          \<lparr>filename = ascii ''b'', data = 1, crc32 = calculateCRC32 [0x68, 0x69]\<rparr>]\<rparr>
              [[1, 2, 3], [0x68, 0x69]]) = Inr buf
          \<and> getUint32 34 buf = 0x04034B50
          \<and> getUint32 (67 + 47) buf = 0x02014B50
          \<and> getUint32 (67 + 47 + 42) buf = 34)"
proof -
  let ?calls = "[AddFile (ascii ''a'') (JSBytes 0) False,
                 AddFile (ascii ''b'') (JSString (ascii ''hi'')) False]"
  let ?start = "[[1, 2, 3]] :: heap"
  let ?z = "\<lparr>entries = [\<lparr>filename = ascii ''a'', data = 0, crc32 = calculateCRC32 [1, 2, 3]\<rparr>,
                       \<lparr>filename = ascii ''b'', data = 1, crc32 = calculateCRC32 [0x68, 0x69]\<rparr>]\<rparr>"
  let ?h = "[[1, 2, 3], [0x68, 0x69]] :: heap"
  have ok: "\<forall>c\<in>set ?calls. callOk ?start c" by simp
  have hi: "TextEncoder_encode (ascii ''hi'') = [0x68, 0x69]"
    and a: "length (TextEncoder_encode (ascii ''a'')) = 1"
    and b: "length (TextEncoder_encode (ascii ''b'')) = 1"
    by (simp_all add: ascii_def TextEncoder_encode_ascii)
  have p: "populate ?calls ?start = (?z, ?h)"
    by (simp add: populate_eval hi)
  have i: "1 < length (entries ?z)" by simp
  have lp: "localHeaderPos ?h (entries ?z) 1 = 34"
    by (simp add: localHeaderPos_def a)
  have cp: "centralRecordPos ?h (entries ?z) 1 = 67 + 47"
    by (simp add: centralRecordPos_def localHeaderPos_def a b)
  from createZip_central_offset[OF ok p i] obtain buf news where
    "createZip ?z ?h = (Inr buf, ?z, ?h @ news)"
    "getUint32 (localHeaderPos ?h (entries ?z) 1) buf = 0x04034B50"
    "getUint32 (centralRecordPos ?h (entries ?z) 1) buf = 0x02014B50"
    "getUint32 (centralRecordPos ?h (entries ?z) 1 + 42) buf
       = localHeaderPos ?h (entries ?z) 1 mod 2 ^ 32"
    by blast
  then have "fst (createZip ?z ?h) = Inr buf \<and> getUint32 34 buf = 0x04034B50
          \<and> getUint32 (67 + 47) buf = 0x02014B50 \<and> getUint32 (67 + 47 + 42) buf = 34"
    unfolding lp cp by simp
  then show ?thesis using p by (simp only: callOk.simps) blast
qed


text \<open>
  C2 as stated, for every sequence of entries, fails once a local header begins at or
  beyond \<open>2^32\<close>, and that happens with payloads that each fit a 32-bit size field:
  after adding three arrays of \<open>2^31\<close> bytes under names of one byte, the third local
  header begins at byte 4294967358 and the offset field of its central directory record
  holds 62.
\<close>

theorem createZip_central_offset_counterexample:
  "length halfArray = 2147483648
   \<and> length halfArray < 2 ^ 32
   \<and> populate [AddFile (ascii ''a'') (JSBytes 0) False, AddFile (ascii ''b'') (JSBytes 1) False,
                 AddFile (ascii ''c'') (JSBytes 2) False]
         [halfArray, halfArray, halfArray]
       = (\<lparr>entries = [halfEntry ''a'' 0, halfEntry ''b'' 1, halfEntry ''c'' 2]\<rparr>,
          [halfArray, halfArray, halfArray])
   \<and> fst (createZip \<lparr>entries = [halfEntry ''a'' 0, halfEntry ''b'' 1, halfEntry ''c'' 2]\<rparr>
         [halfArray, halfArray, halfArray])
       = Inr (archive [halfArray, halfArray, halfArray]
               [halfEntry ''a'' 0, halfEntry ''b'' 1, halfEntry ''c'' 2])
   \<and> localHeaderPos [halfArray, halfArray, halfArray]
         [halfEntry ''a'' 0, halfEntry ''b'' 1, halfEntry ''c'' 2] 2 = 4294967358
   \<and> getUint32 4294967358
         (archive [halfArray, halfArray, halfArray]
           [halfEntry ''a'' 0, halfEntry ''b'' 1, halfEntry ''c'' 2])
       = 0x04034B50
   \<and> getUint32
         (centralRecordPos [halfArray, halfArray, halfArray]
            [halfEntry ''a'' 0, halfEntry ''b'' 1, halfEntry ''c'' 2] 2 + 42)
         (archive [halfArray, halfArray, halfArray]
           [halfEntry ''a'' 0, halfEntry ''b'' 1, halfEntry ''c'' 2])
       = 62"
proof -
  let ?calls = "[AddFile (ascii ''a'') (JSBytes 0) False, AddFile (ascii ''b'') (JSBytes 1) False,
                 AddFile (ascii ''c'') (JSBytes 2) False]"
  let ?store = "[halfArray, halfArray, halfArray]"
  let ?es = "[halfEntry ''a'' 0, halfEntry ''b'' 1, halfEntry ''c'' 2]"
  have a: "length (TextEncoder_encode (ascii ''a'')) = 1"
    and b: "length (TextEncoder_encode (ascii ''b'')) = 1"
    by (simp_all add: ascii_def TextEncoder_encode_ascii)
  have half: "length halfArray = 2147483648"
    by (simp add: halfArray_def)
  then have fits: "length halfArray < 2 ^ 32"
    by simp
  have ok: "\<forall>c\<in>set ?calls. callOk ?store c" by simp
  have p: "populate ?calls ?store = (\<lparr>entries = ?es\<rparr>, ?store)"
    by (simp add: populate_eval halfEntry_def)
  from populated_createZip(1)[OF ok p]
  have z: "fst (createZip \<lparr>entries = ?es\<rparr> ?store) = Inr (archive ?store ?es)"
    by auto
  have lp: "localHeaderPos ?store ?es 2 = 4294967358"
    by (simp add: localHeaderPos_def halfEntry_def a b half numeral_2_eq_2)
  have sig: "getUint32 (localHeaderPos ?store ?es 2) (archive ?store ?es) = 0x04034B50"
    by (rule archive_local_fields) simp
  have "getUint32 (centralRecordPos ?store ?es 2 + 42) (archive ?store ?es)
        = localHeaderPos ?store ?es 2 mod 2 ^ 32"
    by (rule archive_central_fields) simp
  then have off: "getUint32 (centralRecordPos ?store ?es 2 + 42) (archive ?store ?es) = 62"
    unfolding lp by simp
  show ?thesis using half fits p z lp sig[unfolded lp] off by (intro conjI)
qed

section \<open>Checksums and sizes in both records\<close>

text \<open>
  C3. For every entry of a populated builder whose payload fits the 32-bit size field
  (the payloads the specification admits: shorter than \<open>2^32\<close> bytes), the CRC-32 field
  of its local header (offset 14) and of its central directory record (offset 16) both
  hold the checksum computed over the payload bytes of the entry, and the compressed and
  uncompressed size fields of both records (offsets 18 and 22, 20 and 24) hold the
  length of the payload.
\<close>

theorem createZip_checksum_and_sizes:
  assumes "\<forall>c\<in>set calls. callOk h0 c" and "populate calls h0 = (this, h)"
    and "i < length (entries this)"
    and "length (h ! data (entries this ! i)) < 2 ^ 32"
  shows "\<exists>buf news. createZip this h = (Inr buf, this, h @ news)
     \<and> getUint32 (localHeaderPos h (entries this) i + 14) buf
         = calculateCRC32 (h ! data (entries this ! i))
     \<and> getUint32 (centralRecordPos h (entries this) i + 16) buf
         = calculateCRC32 (h ! data (entries this ! i))
     \<and> getUint32 (localHeaderPos h (entries this) i + 18) buf
         = length (h ! data (entries this ! i))
     \<and> getUint32 (localHeaderPos h (entries this) i + 22) buf
         = length (h ! data (entries this ! i))
     \<and> getUint32 (centralRecordPos h (entries this) i + 20) buf
         = length (h ! data (entries this ! i))
     \<and> getUint32 (centralRecordPos h (entries this) i + 24) buf
         = length (h ! data (entries this ! i))"
proof -
  from populated_createZip(1)[OF assms(1,2)] obtain news where
    z: "createZip this h = (Inr (archive h (entries this)), this, h @ news)" ..
  from populated_createZip(2)[OF assms(1,2)] assms(3)
  have "crc32 (entries this ! i) = calculateCRC32 (h ! data (entries this ! i))"
    by simp
  then have crc: "crc32 (entries this ! i) mod 2 ^ 32 = calculateCRC32 (h ! data (entries this ! i))"
    using calculateCRC32_bound[of "h ! data (entries this ! i)"] by simp
  have len: "length (h ! data (entries this ! i)) mod 2 ^ 32 = length (h ! data (entries this ! i))"
    using assms(4) by simp
  show ?thesis
    using z archive_local_fields(2,3,4)[OF assms(3), of h]
      archive_central_fields(2,3,4)[OF assms(3), of h]
    unfolding crc len by blast
qed

theorem createZip_checksum_and_sizes_witness:
  "callOk [] (AddFile (ascii ''x'') (JSString (ascii ''QUJD'')) True)
   \<and> populate [AddFile (ascii ''x'') (JSString (ascii ''QUJD'')) True] []
       = (\<lparr>entries = [\<lparr>filename = ascii ''x'', data = 0,
                          crc32 = calculateCRC32 [0x41, 0x42, 0x43]\<rparr>]\<rparr>,
          [[0x41, 0x42, 0x43]])
   \<and> length ([[0x41, 0x42, 0x43]] ! 0 :: bytes) < 2 ^ 32
   \<and> (\<exists>buf. fst (createZip
              \<lparr>entries = [\<lparr>filename = ascii ''x'', data = 0,
                            crc32 = calculateCRC32 [0x41, 0x42, 0x43]\<rparr>]\<rparr>
              [[0x41, 0x42, 0x43]]) = Inr buf
          \<and> getUint32 14 buf = calculateCRC32 [0x41, 0x42, 0x43]
          \<and> getUint32 (34 + 16) buf = calculateCRC32 [0x41, 0x42, 0x43]
          \<and> getUint32 18 buf = 3 \<and> getUint32 22 buf = 3
          \<and> getUint32 (34 + 20) buf = 3 \<and> getUint32 (34 + 24) buf = 3)"
proof -
  let ?calls = "[AddFile (ascii ''x'') (JSString (ascii ''QUJD'')) True]"
  let ?z = "\<lparr>entries = [\<lparr>filename = ascii ''x'', data = 0,
                          crc32 = calculateCRC32 [0x41, 0x42, 0x43]\<rparr>]\<rparr>"
  let ?h = "[[0x41, 0x42, 0x43]] :: heap"
  have ok: "\<forall>c\<in>set ?calls. callOk [] c" by simp
  have dec: "atob (ascii ''QUJD'') = Inr [0x41, 0x42, 0x43]"
    by (simp add: string_eval)
  have x: "length (TextEncoder_encode (ascii ''x'')) = 1"
    by (simp add: ascii_def TextEncoder_encode_ascii)
  have p: "populate ?calls [] = (?z, ?h)"
    by (simp add: populate_eval dec)
  have i: "0 < length (entries ?z)" by simp
  have fits: "length (?h ! data (entries ?z ! 0)) < 2 ^ 32" by simp
  have fits': "length (?h ! 0) < 2 ^ 32" by simp
  have lp: "localHeaderPos ?h (entries ?z) 0 = 0"
    by (simp add: localHeaderPos_def)
  have cp: "centralRecordPos ?h (entries ?z) 0 = 34"
    by (simp add: centralRecordPos_def localHeaderPos_def x)
  from createZip_checksum_and_sizes[OF ok p i fits] obtain buf news where
    "createZip ?z ?h = (Inr buf, ?z, ?h @ news)"
    "getUint32 (localHeaderPos ?h (entries ?z) 0 + 14) buf
       = calculateCRC32 (?h ! data (entries ?z ! 0))"
    "getUint32 (centralRecordPos ?h (entries ?z) 0 + 16) buf
       = calculateCRC32 (?h ! data (entries ?z ! 0))"
    "getUint32 (localHeaderPos ?h (entries ?z) 0 + 18) buf
       = length (?h ! data (entries ?z ! 0))"
    "getUint32 (localHeaderPos ?h (entries ?z) 0 + 22) buf
       = length (?h ! data (entries ?z ! 0))"
    "getUint32 (centralRecordPos ?h (entries ?z) 0 + 20) buf
       = length (?h ! data (entries ?z ! 0))"
    "getUint32 (centralRecordPos ?h (entries ?z) 0 + 24) buf
       = length (?h ! data (entries ?z ! 0))"
    by blast
  then have "fst (createZip ?z ?h) = Inr buf
          \<and> getUint32 14 buf = calculateCRC32 [0x41, 0x42, 0x43]
          \<and> getUint32 (34 + 16) buf = calculateCRC32 [0x41, 0x42, 0x43]
          \<and> getUint32 18 buf = 3 \<and> getUint32 22 buf = 3
          \<and> getUint32 (34 + 20) buf = 3 \<and> getUint32 (34 + 24) buf = 3"
    unfolding lp cp by simp
  then show ?thesis using p fits' by (simp only: callOk.simps) blast
qed

section \<open>The empty archive\<close>

text \<open>
  C4. On a builder without entries, whatever the store, \<open>createZip\<close> succeeds and
  returns exactly 22 bytes: the end-of-central-directory record with signature
  \<open>0x06054B50\<close>, both entry counts 0, central directory size 0 and central directory
  offset 0.
\<close>

theorem createZip_empty:
  "fst (createZip new_CustomZipCreator h)
     = Inr [0x50, 0x4B, 0x05, 0x06, 0, 0, 0, 0, 0, 0, 0, 0, 0, 0, 0, 0, 0, 0, 0, 0, 0, 0]
   \<and> length [0x50, 0x4B, 0x05, 0x06, 0, 0, 0, 0, 0, 0, 0, 0, 0, 0, 0, 0, 0, 0, 0, 0, 0, 0 :: byte] = 22
   \<and> getUint32 0 [0x50, 0x4B, 0x05, 0x06, 0, 0, 0, 0, 0, 0, 0, 0, 0, 0, 0, 0, 0, 0, 0, 0, 0, 0]
       = 0x06054B50
   \<and> getUint16 8 [0x50, 0x4B, 0x05, 0x06, 0, 0, 0, 0, 0, 0, 0, 0, 0, 0, 0, 0, 0, 0, 0, 0, 0, 0] = 0
   \<and> getUint16 10 [0x50, 0x4B, 0x05, 0x06, 0, 0, 0, 0, 0, 0, 0, 0, 0, 0, 0, 0, 0, 0, 0, 0, 0, 0] = 0
   \<and> getUint32 12 [0x50, 0x4B, 0x05, 0x06, 0, 0, 0, 0, 0, 0, 0, 0, 0, 0, 0, 0, 0, 0, 0, 0, 0, 0] = 0
   \<and> getUint32 16 [0x50, 0x4B, 0x05, 0x06, 0, 0, 0, 0, 0, 0, 0, 0, 0, 0, 0, 0, 0, 0, 0, 0, 0, 0] = 0"
proof -
  have "\<forall>e\<in>set (entries new_CustomZipCreator). data e < length h"
    by (simp add: new_CustomZipCreator_def)
  from createZip_layout[OF this] obtain news where
    "createZip new_CustomZipCreator h
       = (Inr (archive h (entries new_CustomZipCreator)), new_CustomZipCreator, h @ news)" ..
  moreover have "archive h (entries new_CustomZipCreator)
     = [0x50, 0x4B, 0x05, 0x06, 0, 0, 0, 0, 0, 0, 0, 0, 0, 0, 0, 0, 0, 0, 0, 0, 0, 0]"
    by (simp add: new_CustomZipCreator_def layout_eval)
  ultimately have "fst (createZip new_CustomZipCreator h)
     = Inr [0x50, 0x4B, 0x05, 0x06, 0, 0, 0, 0, 0, 0, 0, 0, 0, 0, 0, 0, 0, 0, 0, 0, 0, 0]"
    by simp
  then show ?thesis by (simp add: getUint32_def getUint16_def)
qed


section \<open>One entry\<close>

text \<open>
  C7. Adding the one entry \<open>page_1.png\<close> with the payload \<open>89 50 4E 47\<close> to a new builder
  and finalising gives a buffer of \<open>30 + 10 + 4 + 46 + 10 + 22 = 122\<close> bytes that begins
  with \<open>50 4B 03 04\<close>; the checksum stored with the entry and in both records is the
  checksum of the four payload bytes, \<open>0x5BEBBEA5\<close>.
\<close>

theorem createZip_page_1_png:
  "addFile (ascii ''page_1.png'') (JSBytes 0) False new_CustomZipCreator [[0x89, 0x50, 0x4E, 0x47]]
     = (Inr (), page1Builder, [[0x89, 0x50, 0x4E, 0x47]])
   \<and> fst (createZip page1Builder [[0x89, 0x50, 0x4E, 0x47]]) = Inr page1Archive
   \<and> take 4 page1Archive = [0x50, 0x4B, 0x03, 0x04]
   \<and> length page1Archive = 30 + 10 + 4 + 46 + 10 + 22
   \<and> length page1Archive = 122
   \<and> crc32 (entries page1Builder ! 0) = calculateCRC32 [0x89, 0x50, 0x4E, 0x47]
   \<and> calculateCRC32 [0x89, 0x50, 0x4E, 0x47] = 0x5BEBBEA5
   \<and> crc32Reference [0x89, 0x50, 0x4E, 0x47] = 0x5BEBBEA5
   \<and> getUint32 14 page1Archive = 0x5BEBBEA5
   \<and> getUint32 (44 + 16) page1Archive = 0x5BEBBEA5"
proof -
  let ?h = "[[0x89, 0x50, 0x4E, 0x47]] :: heap"
  have crc: "calculateCRC32 [0x89, 0x50, 0x4E, 0x47] = 0x5BEBBEA5"
    by (simp add: crc_eval)
  have add: "addFile (ascii ''page_1.png'') (JSBytes 0) False new_CustomZipCreator ?h
     = (Inr (), page1Builder, ?h)"
    by (simp add: addFile_def new_CustomZipCreator_def page1Builder_def crc)
  have name: "TextEncoder_encode (ascii ''page_1.png'')
     = [0x70, 0x61, 0x67, 0x65, 0x5F, 0x31, 0x2E, 0x70, 0x6E, 0x67]"
    by (simp add: ascii_def TextEncoder_encode_ascii)
  have "\<forall>e\<in>set (entries page1Builder). data e < length ?h"
    by (simp add: page1Builder_def)
  from createZip_layout[OF this] obtain news where
    "createZip page1Builder ?h = (Inr (archive ?h (entries page1Builder)), page1Builder, ?h @ news)" ..
  moreover have "archive ?h (entries page1Builder) = page1Archive"
    by (simp add: page1Builder_def layout_eval name page1Archive_def)
  ultimately have zip: "fst (createZip page1Builder ?h) = Inr page1Archive"
    by simp
  have e: "crc32 (entries page1Builder ! 0) = calculateCRC32 [0x89, 0x50, 0x4E, 0x47]"
    by (simp add: page1Builder_def crc)
  have t: "take 4 page1Archive = [0x50, 0x4B, 0x03, 0x04]"
    and l: "length page1Archive = 122"
    and f1: "getUint32 14 page1Archive = 0x5BEBBEA5"
    and f2: "getUint32 (44 + 16) page1Archive = 0x5BEBBEA5"
    by (simp_all add: page1Archive_def getUint32_def)
  have r: "crc32Reference [0x89, 0x50, 0x4E, 0x47] = 0x5BEBBEA5"
    using crc by (simp only: calculateCRC32_reference)
  show ?thesis using add zip t l e crc r f1 f2 by simp
qed


section \<open>What addFile accepts\<close>

text \<open>
  C5, as the code has it. \<open>addFile\<close> checks neither the length of the encoded name nor
  the length of the payload: given a typed array, or a string without \<open>isBase64\<close>, it
  returns normally and appends exactly one entry with that name and that payload,
  whatever their lengths. It raises only when a string with \<open>isBase64\<close> fails to decode
  and when the payload is \<open>undefined\<close>, and then the builder and the store are as they
  were; a string with \<open>isBase64\<close> that decodes is added like any other payload.
\<close>

theorem addFile_no_length_check:
  "addFile name (JSBytes r) isBase64 this h
     = (Inr (),
        this\<lparr>entries := entries this @
          [\<lparr>filename = name, data = r, crc32 = calculateCRC32 (h ! r)\<rparr>]\<rparr>,
        h)
   \<and> addFile name (JSString s) False this h
     = (Inr (),
        this\<lparr>entries := entries this @
          [\<lparr>filename = name, data = length h, crc32 = calculateCRC32 (TextEncoder_encode s)\<rparr>]\<rparr>,
        h @ [TextEncoder_encode s])
   \<and> addFile name (JSString s) True this h
     = (case base64ToUint8Array s of
          Inl e \<Rightarrow> (Inl e, this, h)
        | Inr bs \<Rightarrow>
            (Inr (),
             this\<lparr>entries := entries this @
               [\<lparr>filename = name, data = length h, crc32 = calculateCRC32 bs\<rparr>]\<rparr>,
             h @ [bs]))
   \<and> addFile name JSUndefined isBase64 this h = (Inl TypeError, this, h)"
  by (simp add: addFile_def alloc_def split: sum.splits)

text \<open>
  C5 as stated fails on both counts: a name that encodes to 65536 bytes is accepted and
  its entry added, and so is a payload of \<open>2^32\<close> bytes.
\<close>

theorem addFile_no_length_check_counterexample:
  "65535 < length (TextEncoder_encode longName)
   \<and> addFile longName (JSBytes 0) False new_CustomZipCreator [[]]
       = (Inr (), \<lparr>entries = [\<lparr>filename = longName, data = 0, crc32 = 0\<rparr>]\<rparr>, [[]])
   \<and> 2 ^ 32 - 1 < length bigArray
   \<and> addFile (ascii ''a'') (JSBytes 0) False new_CustomZipCreator [bigArray]
       = (Inr (), \<lparr>entries = [bigEntry ''a'']\<rparr>, [bigArray])"
proof -
  have "\<forall>c\<in>set longName. c < 0x80"
    by (simp add: longName_def)
  then have "TextEncoder_encode longName = map ucast longName"
    by (rule TextEncoder_encode_ascii)
  then have n: "65535 < length (TextEncoder_encode longName)"
    by (simp add: longName_def)
  have crc: "calculateCRC32 [] = 0"
    by (simp add: crc_eval)
  have a1: "addFile longName (JSBytes 0) False new_CustomZipCreator [[]]
       = (Inr (), \<lparr>entries = [\<lparr>filename = longName, data = 0, crc32 = 0\<rparr>]\<rparr>, [[]])"
    by (simp add: addFile_def new_CustomZipCreator_def crc)
  have b: "2 ^ 32 - 1 < length bigArray"
    by (simp add: bigArray_def)
  have a2: "addFile (ascii ''a'') (JSBytes 0) False new_CustomZipCreator [bigArray]
       = (Inr (), \<lparr>entries = [bigEntry ''a'']\<rparr>, [bigArray])"
    by (simp add: addFile_def new_CustomZipCreator_def bigEntry_def)
  show ?thesis using n a1 b a2 by (intro conjI)
qed

section \<open>Malformed base64\<close>

text \<open>
  Where the decoder is reached with malformed text, the error is raised before anything
  is pushed: \<open>addFile\<close> with \<open>isBase64\<close> on a malformed string, and \<open>addImageFromDataURL\<close>
  on a data URL whose piece between the first and the second comma is malformed. A data
  URL without a comma raises \<open>TypeError\<close>.
\<close>

lemma addFile_malformed_base64:
  "atob s = Inl e \<Longrightarrow> addFile name (JSString s) True this h = (Inl e, this, h)"
  by (simp add: addFile_def base64ToUint8Array_def)

lemma js_split_none: "sep \<notin> set s \<Longrightarrow> js_split sep s = [s]"
  by (induction s) auto

lemma js_split_first: "sep \<notin> set p \<Longrightarrow> js_split sep (p @ sep # r) = p # js_split sep r"
  by (induction p) auto

lemma js_split_nonempty: "js_split sep s \<noteq> []"
  by (induction s) (simp_all split: list.splits)

lemma addImageFromDataURL_no_comma:
  "0x2C \<notin> set dataURL \<Longrightarrow>
   addImageFromDataURL name dataURL this h = (Inl TypeError, this, h)"
  by (simp add: addImageFromDataURL_def js_split_none js_index_def addFile_def)

lemma addImageFromDataURL_malformed_piece:
  "0x2C \<notin> set p \<Longrightarrow> 0x2C \<notin> set q \<Longrightarrow> atob q = Inl e \<Longrightarrow>
   addImageFromDataURL name (p @ 0x2C # q) this h = (Inl e, this, h)
   \<and> addImageFromDataURL name (p @ 0x2C # q @ 0x2C # r) this h = (Inl e, this, h)"
  by (simp add: addImageFromDataURL_def js_split_first js_split_none js_index_def
      addFile_malformed_base64)

text \<open>
  C6 at the input where the code departs from it. The base64 text \<open>QUJD,!!!\<close> is
  malformed, and \<open>addFile\<close> with \<open>isBase64\<close> raises on it and adds nothing. Behind the
  prefix of a data URL the same text is cut at its comma by \<open>split(",")[1]\<close>:
  \<open>addImageFromDataURL\<close> returns normally and adds an entry with the three bytes that
  \<open>QUJD\<close> decodes to.
\<close>

theorem addImageFromDataURL_second_comma:
  "atob (ascii ''QUJD,!!!'') = Inl InvalidCharacterError
   \<and> addFile (ascii ''x.png'') (JSString (ascii ''QUJD,!!!'')) True new_CustomZipCreator []
       = (Inl InvalidCharacterError, new_CustomZipCreator, [])
   \<and> addImageFromDataURL (ascii ''x.png'') (ascii ''data:image/png;base64,QUJD,!!!'')
         new_CustomZipCreator []
       = (Inr (),
          \<lparr>entries = [\<lparr>filename = ascii ''x.png'', data = 0,
                          crc32 = calculateCRC32 [0x41, 0x42, 0x43]\<rparr>]\<rparr>,
          [[0x41, 0x42, 0x43]])"
proof -
  have bad: "atob (ascii ''QUJD,!!!'') = Inl InvalidCharacterError"
    by (simp add: string_eval)
  have good: "atob (ascii ''QUJD'') = Inr [0x41, 0x42, 0x43]"
    by (simp add: string_eval)
  have sp: "js_split 0x2C (ascii ''data:image/png;base64,QUJD,!!!'')
      = [ascii ''data:image/png;base64'', ascii ''QUJD'', ascii ''!!!'']"
    by (simp add: ascii_def)
  have a: "addFile (ascii ''x.png'') (JSString (ascii ''QUJD,!!!'')) True new_CustomZipCreator []
       = (Inl InvalidCharacterError, new_CustomZipCreator, [])"
    using bad by (rule addFile_malformed_base64)
  have b: "addImageFromDataURL (ascii ''x.png'') (ascii ''data:image/png;base64,QUJD,!!!'')
         new_CustomZipCreator []
       = (Inr (),
          \<lparr>entries = [\<lparr>filename = ascii ''x.png'', data = 0,
                          crc32 = calculateCRC32 [0x41, 0x42, 0x43]\<rparr>]\<rparr>,
          [[0x41, 0x42, 0x43]])"
    unfolding addImageFromDataURL_def sp
    by (simp add: js_index_def addFile_def base64ToUint8Array_def good alloc_def
        new_CustomZipCreator_def)
  show ?thesis using bad a b by (intro conjI)
qed


section \<open>Data URLs\<close>

lemma sextets_Some: "sextets d = Some vs \<Longrightarrow> \<forall>c\<in>set d. base64Value c \<noteq> None"
  by (induction d arbitrary: vs) (auto split: option.splits)

lemma in_butlast: "c \<in> set xs \<Longrightarrow> c \<noteq> last xs \<Longrightarrow> c \<in> set (butlast xs)"
  by (induction xs) (auto split: if_splits)

lemma stripPadding_keeps: "c \<in> set d \<Longrightarrow> c \<noteq> 0x3D \<Longrightarrow> c \<in> set (stripPadding d)"
  unfolding stripPadding_def by (auto intro: in_butlast)

lemma atob_no_comma:
  assumes "atob s = Inr b"
  shows "0x2C \<notin> set s"
proof
  assume c: "0x2C \<in> set s"
  let ?d = "stripPadding (filter (\<lambda>c. \<not> isAsciiWhitespace c) s)"
  from assms obtain vs where "sextets ?d = Some vs"
    by (auto simp: atob_def Let_def split: if_splits option.splits)
  then have ok: "\<forall>c\<in>set ?d. base64Value c \<noteq> None"
    by (rule sextets_Some)
  from c have "0x2C \<in> set (filter (\<lambda>c. \<not> isAsciiWhitespace c) s)"
    by (simp add: isAsciiWhitespace_def)
  then have "0x2C \<in> set ?d"
    by (rule stripPadding_keeps) simp
  with ok have "base64Value 0x2C \<noteq> None" by blast
  then show False by (simp add: base64Value_def)
qed

text \<open>
  C10. For every data URL that consists of a prefix without a comma, a comma, and a
  text that \<open>base64ToUint8Array\<close> decodes, \<open>addImageFromDataURL\<close> returns normally and
  appends exactly one entry, whose payload is a new array holding the decoding of the
  text behind the first comma. Nothing is asked of the prefix.
\<close>

theorem addImageFromDataURL_after_first_comma:
  assumes "0x2C \<notin> set prefix" and "base64ToUint8Array rest = Inr bs"
  shows "addImageFromDataURL name (prefix @ 0x2C # rest) this h
     = (Inr (),
        this\<lparr>entries := entries this @
          [\<lparr>filename = name, data = length h, crc32 = calculateCRC32 bs\<rparr>]\<rparr>,
        h @ [bs])"
proof -
  from assms(2) obtain b where "atob rest = Inr b"
    by (auto simp: base64ToUint8Array_def split: sum.splits)
  then have "0x2C \<notin> set rest" by (rule atob_no_comma)
  then have "js_split 0x2C (prefix @ 0x2C # rest) = [prefix, rest]"
    using assms(1) by (simp add: js_split_first js_split_none)
  then have "js_index (js_split 0x2C (prefix @ 0x2C # rest)) 1 = JSString rest"
    by (simp add: js_index_def)
  then show ?thesis
    using assms(2) by (simp add: addImageFromDataURL_def addFile_def alloc_def)
qed

theorem addImageFromDataURL_after_first_comma_witness:
  "0x2C \<notin> set (ascii ''data:image/png;base64'')
   \<and> base64ToUint8Array (ascii ''QUJD'') = Inr [0x41, 0x42, 0x43]
   \<and> addImageFromDataURL (ascii ''x.png'') (ascii ''data:image/png;base64'' @ 0x2C # ascii ''QUJD'')
         new_CustomZipCreator []
       = (Inr (),
          new_CustomZipCreator\<lparr>entries := entries new_CustomZipCreator @
            [\<lparr>filename = ascii ''x.png'', data = length ([] :: heap),
               crc32 = calculateCRC32 [0x41, 0x42, 0x43]\<rparr>]\<rparr>,
          [] @ [[0x41, 0x42, 0x43]])
   \<and> ascii ''data:image/png;base64'' @ 0x2C # ascii ''QUJD''
       = ascii ''data:image/png;base64,QUJD''"
proof -
  have p: "0x2C \<notin> set (ascii ''data:image/png;base64'')"
    by (simp add: ascii_def)
  have d: "base64ToUint8Array (ascii ''QUJD'') = Inr [0x41, 0x42, 0x43]"
    by (simp add: base64ToUint8Array_def string_eval)
  have e: "ascii ''data:image/png;base64'' @ 0x2C # ascii ''QUJD''
       = ascii ''data:image/png;base64,QUJD''"
    by (simp add: ascii_def)
  show ?thesis
    using addImageFromDataURL_after_first_comma[OF p d, of "ascii ''x.png''"
        new_CustomZipCreator "[]"] p d e
    by (intro conjI)
qed

section \<open>Finalising leaves the builder alone\<close>

text \<open>
  C9. After \<open>createZip\<close> on a populated builder, the builder is the same object state
  with the same entries in the same order (same names and stored checksums), every
  array that was in the store before the call has the same bytes, and so every entry has
  the same payload bytes.
\<close>

theorem createZip_leaves_builder:
  assumes "\<forall>c\<in>set calls. callOk h0 c" and "populate calls h0 = (this, h)"
  shows "fst (snd (createZip this h)) = this
     \<and> entries (fst (snd (createZip this h))) = entries this
     \<and> take (length h) (snd (snd (createZip this h))) = h
     \<and> map (\<lambda>e. snd (snd (createZip this h)) ! data e) (entries this)
         = map (\<lambda>e. h ! data e) (entries this)"
proof -
  from populated_createZip(1)[OF assms] obtain news where
    z: "createZip this h = (Inr (archive h (entries this)), this, h @ news)" ..
  from populate_consistent[OF assms] have "\<forall>e\<in>set (entries this). data e < length h"
    by (simp add: consistent_def)
  then have "map (\<lambda>e. (h @ news) ! data e) (entries this) = map (\<lambda>e. h ! data e) (entries this)"
    by (simp add: nth_append)
  then show ?thesis by (simp add: z)
qed

theorem createZip_leaves_builder_witness:
  "callOk [[7, 8]] (AddFile (ascii ''a'') (JSBytes 0) False)
   \<and> populate [AddFile (ascii ''a'') (JSBytes 0) False] [[7, 8]]
       = (\<lparr>entries = [\<lparr>filename = ascii ''a'', data = 0, crc32 = calculateCRC32 [7, 8]\<rparr>]\<rparr>,
          [[7, 8]])
   \<and> fst (snd (createZip
         \<lparr>entries = [\<lparr>filename = ascii ''a'', data = 0, crc32 = calculateCRC32 [7, 8]\<rparr>]\<rparr>
         [[7, 8]]))
       = \<lparr>entries = [\<lparr>filename = ascii ''a'', data = 0, crc32 = calculateCRC32 [7, 8]\<rparr>]\<rparr>
   \<and> take 1 (snd (snd (createZip
         \<lparr>entries = [\<lparr>filename = ascii ''a'', data = 0, crc32 = calculateCRC32 [7, 8]\<rparr>]\<rparr>
         [[7, 8]])))
       = [[7, 8]]
   \<and> snd (snd (createZip
         \<lparr>entries = [\<lparr>filename = ascii ''a'', data = 0, crc32 = calculateCRC32 [7, 8]\<rparr>]\<rparr>
         [[7, 8]])) ! 0
       = [7, 8]"
proof -
  let ?calls = "[AddFile (ascii ''a'') (JSBytes 0) False]"
  let ?z = "\<lparr>entries = [\<lparr>filename = ascii ''a'', data = 0, crc32 = calculateCRC32 [7, 8]\<rparr>]\<rparr>"
  let ?start = "[[7, 8]] :: heap"
  have ok: "\<forall>c\<in>set ?calls. callOk ?start c" by simp
  have p: "populate ?calls ?start = (?z, ?start)"
    by (simp add: populate_eval)
  from createZip_leaves_builder[OF ok p]
  have "fst (snd (createZip ?z ?start)) = ?z
     \<and> take 1 (snd (snd (createZip ?z ?start))) = ?start
     \<and> snd (snd (createZip ?z ?start)) ! 0 = [7, 8]"
    by simp
  then show ?thesis using p by (simp only: callOk.simps) simp
qed

section \<open>Determinism\<close>

lemma archive_extend:
  "\<forall>e\<in>set es. data e < length h \<Longrightarrow> archive (h @ news) es = archive h es"
  by (simp add: archive_def centralRecords_extend localSection_extend cong: map_cong)

lemma centralRecords_cong:
  "map (\<lambda>e. (filename e, h1 ! data e, crc32 e)) es1
     = map (\<lambda>e. (filename e, h2 ! data e, crc32 e)) es2 \<Longrightarrow>
   map (localSection h1) es1 = map (localSection h2) es2
   \<and> centralRecords h1 off es1 = centralRecords h2 off es2"
proof (induction es1 arbitrary: es2 off)
  case Nil
  then show ?case by simp
next
  case (Cons e1 es1)
  then obtain e2 r2 where es2: "es2 = e2 # r2" by (cases es2) auto
  with Cons.prems have
    hd: "filename e1 = filename e2" "h1 ! data e1 = h2 ! data e2" "crc32 e1 = crc32 e2"
    and tl: "map (\<lambda>e. (filename e, h1 ! data e, crc32 e)) es1
              = map (\<lambda>e. (filename e, h2 ! data e, crc32 e)) r2"
    by simp_all
  from hd have ls: "localSection h1 e1 = localSection h2 e2"
    by (simp add: localSection_def)
  from Cons.IH[OF tl, of "off + length (localSection h2 e2)"] hd ls es2
  show ?case by simp
qed

lemma archive_cong:
  assumes "map (\<lambda>e. (filename e, h1 ! data e, crc32 e)) es1
     = map (\<lambda>e. (filename e, h2 ! data e, crc32 e)) es2"
  shows "archive h1 es1 = archive h2 es2"
proof -
  from assms have "length es1 = length es2"
    by (rule map_eq_imp_length_eq)
  with centralRecords_cong[OF assms, of 0] show ?thesis
    by (simp add: archive_def)
qed

lemma consistent_view:
  assumes "consistent this h"
  shows "map (\<lambda>e. (filename e, h ! data e, crc32 e)) (entries this)
     = map (\<lambda>(n, p). (n, p, calculateCRC32 p)) (map (\<lambda>e. (filename e, h ! data e)) (entries this))"
  using assms by (simp add: consistent_def)

text \<open>
  C8. For two populated builders, in whatever stores and however populated, whose
  entries have the same names and the same payload bytes in the same order,
  \<open>createZip\<close> succeeds and returns byte-identical buffers; and a second \<open>createZip\<close> on
  the builder and store that the first call left returns the same bytes again.
\<close>

theorem createZip_deterministic:
  assumes "\<forall>c\<in>set calls1. callOk start1 c" and "populate calls1 start1 = (this1, h1)"
    and "\<forall>c\<in>set calls2. callOk start2 c" and "populate calls2 start2 = (this2, h2)"
    and "map (\<lambda>e. (filename e, h1 ! data e)) (entries this1)
         = map (\<lambda>e. (filename e, h2 ! data e)) (entries this2)"
  shows "(\<exists>buf. fst (createZip this1 h1) = Inr buf)
     \<and> fst (createZip this1 h1) = fst (createZip this2 h2)
     \<and> fst (createZip (fst (snd (createZip this1 h1))) (snd (snd (createZip this1 h1))))
         = fst (createZip this1 h1)"
proof -
  from populate_consistent[OF assms(1,2)] have c1: "consistent this1 h1" .
  from populate_consistent[OF assms(3,4)] have c2: "consistent this2 h2" .
  from populated_createZip(1)[OF assms(1,2)] obtain news1 where
    z1: "createZip this1 h1 = (Inr (archive h1 (entries this1)), this1, h1 @ news1)" ..
  from populated_createZip(1)[OF assms(3,4)] obtain news2 where
    z2: "createZip this2 h2 = (Inr (archive h2 (entries this2)), this2, h2 @ news2)" ..
  have "map (\<lambda>e. (filename e, h1 ! data e, crc32 e)) (entries this1)
        = map (\<lambda>e. (filename e, h2 ! data e, crc32 e)) (entries this2)"
    unfolding consistent_view[OF c1] consistent_view[OF c2] assms(5) ..
  then have same: "archive h1 (entries this1) = archive h2 (entries this2)"
    by (rule archive_cong)
  from c1 have refs: "\<forall>e\<in>set (entries this1). data e < length h1"
    by (simp add: consistent_def)
  then have "\<forall>e\<in>set (entries this1). data e < length (h1 @ news1)"
    by auto
  from createZip_layout[OF this] obtain news3 where
    "createZip this1 (h1 @ news1)
       = (Inr (archive (h1 @ news1) (entries this1)), this1, (h1 @ news1) @ news3)" ..
  then have again: "fst (createZip this1 (h1 @ news1)) = Inr (archive h1 (entries this1))"
    using archive_extend[OF refs, of news1] by simp
  show ?thesis using z1 z2 same again by simp
qed


theorem createZip_deterministic_witness:
  "callOk [] (AddFile (ascii ''a'') (JSString (ascii ''QUJD'')) True)
   \<and> populate [AddFile (ascii ''a'') (JSString (ascii ''QUJD'')) True] []
       = (\<lparr>entries = [\<lparr>filename = ascii ''a'', data = 0,
                          crc32 = calculateCRC32 [0x41, 0x42, 0x43]\<rparr>]\<rparr>,
          [[0x41, 0x42, 0x43]])
   \<and> callOk [[], [0x41, 0x42, 0x43]] (AddFile (ascii ''a'') (JSBytes 1) False)
   \<and> populate [AddFile (ascii ''a'') (JSBytes 1) False] [[], [0x41, 0x42, 0x43]]
       = (\<lparr>entries = [\<lparr>filename = ascii ''a'', data = 1,
                          crc32 = calculateCRC32 [0x41, 0x42, 0x43]\<rparr>]\<rparr>,
          [[], [0x41, 0x42, 0x43]])
   \<and> fst (createZip
         \<lparr>entries = [\<lparr>filename = ascii ''a'', data = 0,
                       crc32 = calculateCRC32 [0x41, 0x42, 0x43]\<rparr>]\<rparr>
         [[0x41, 0x42, 0x43]])
       = fst (createZip
         \<lparr>entries = [\<lparr>filename = ascii ''a'', data = 1,
                       crc32 = calculateCRC32 [0x41, 0x42, 0x43]\<rparr>]\<rparr>
         [[], [0x41, 0x42, 0x43]])
   \<and> fst (createZip
         (fst (snd (createZip
           \<lparr>entries = [\<lparr>filename = ascii ''a'', data = 0,
                         crc32 = calculateCRC32 [0x41, 0x42, 0x43]\<rparr>]\<rparr>
           [[0x41, 0x42, 0x43]])))
         (snd (snd (createZip
           \<lparr>entries = [\<lparr>filename = ascii ''a'', data = 0,
                         crc32 = calculateCRC32 [0x41, 0x42, 0x43]\<rparr>]\<rparr>
           [[0x41, 0x42, 0x43]]))))
       = fst (createZip
         \<lparr>entries = [\<lparr>filename = ascii ''a'', data = 0,
                       crc32 = calculateCRC32 [0x41, 0x42, 0x43]\<rparr>]\<rparr>
         [[0x41, 0x42, 0x43]])"
proof -
  let ?calls1 = "[AddFile (ascii ''a'') (JSString (ascii ''QUJD'')) True]"
  let ?calls2 = "[AddFile (ascii ''a'') (JSBytes 1) False]"
  let ?z1 = "\<lparr>entries = [\<lparr>filename = ascii ''a'', data = 0,
                          crc32 = calculateCRC32 [0x41, 0x42, 0x43]\<rparr>]\<rparr>"
  let ?z2 = "\<lparr>entries = [\<lparr>filename = ascii ''a'', data = 1,
                          crc32 = calculateCRC32 [0x41, 0x42, 0x43]\<rparr>]\<rparr>"
  let ?a = "[[0x41, 0x42, 0x43]] :: heap"
  let ?b = "[[], [0x41, 0x42, 0x43]] :: heap"
  have dec: "atob (ascii ''QUJD'') = Inr [0x41, 0x42, 0x43]"
    by (simp add: string_eval)
  have ok1: "\<forall>c\<in>set ?calls1. callOk [] c" by simp
  have p1: "populate ?calls1 [] = (?z1, ?a)"
    by (simp add: populate_eval dec)
  have ok2: "\<forall>c\<in>set ?calls2. callOk ?b c" by simp
  have p2: "populate ?calls2 ?b = (?z2, ?b)"
    by (simp add: populate_eval)
  have same: "map (\<lambda>e. (filename e, ?a ! data e)) (entries ?z1)
         = map (\<lambda>e. (filename e, ?b ! data e)) (entries ?z2)"
    by simp
  from createZip_deterministic[OF ok1 p1 ok2 p2 same]
  have "fst (createZip ?z1 ?a) = fst (createZip ?z2 ?b)
     \<and> fst (createZip (fst (snd (createZip ?z1 ?a))) (snd (snd (createZip ?z1 ?a))))
         = fst (createZip ?z1 ?a)"
    by blast
  then show ?thesis using p1 p2 by (simp only: callOk.simps) simp
qed


end
